theory Spec2Isabelle
  imports Main "HOL-Library.Sublist" "HOL-Library.Char_ord" "HOL-Library.List_Lexorder"
begin

section \<open>The trie engine of trie.c\<close>

subsection \<open>Constants\<close>

definition AC_BUFFER_CAP :: nat where
  "AC_BUFFER_CAP = 1024 * 2"

definition CHILDREN_COUNT :: nat where
  "CHILDREN_COUNT = 95"

definition ASCII_OFFSET :: int where
  "ASCII_OFFSET = 32"

definition INVALID_OFFSET :: int where
  "INVALID_OFFSET = - 1"

definition INITIAL_POOL_CAP :: int where
  "INITIAL_POOL_CAP = 1024 * 2"

definition INT32_MAX :: int where
  "INT32_MAX = 2147483647"

subsection \<open>Data\<close>

text \<open>
  A \<open>Node\<close> is the C struct: \<open>children\<close> is the array \<open>int32_t children[CHILDREN_COUNT]\<close>
  (a list; values of type \<open>int32_t\<close> are integers, and arithmetic that would leave the
  32-bit range is a fault of the model, as signed overflow is undefined in C and traps
  under the build's \<open>-ftrapv\<close>).

  \<open>Trie\<close> is the global \<open>struct Trie\<close>. \<open>pool\<close> is the heap block the pointer
  \<open>Trie.pool\<close> refers to, as a store from cell index to cell content; \<open>pool_cells\<close> is the
  number of cells the allocator has really given to that block (the C code keeps no
  such field: it is the size last passed to a successful malloc or realloc). Cells that
  were never written hold whatever the store holds there.
\<close>

record Node =
  children :: "int list"
  terminal :: bool

record Trie =
  pool :: "int \<Rightarrow> Node"
  pool_cells :: int
  count :: int
  capacity :: int

text \<open>
  The ways a run leaves the C semantics of a normal return: \<open>exit(EXIT_FAILURE)\<close>, an
  access outside an array or outside the initialised part of the pool, and signed
  overflow.
\<close>

datatype fault = Exit_Failure | Out_Of_Bounds | Signed_Overflow

text \<open>The static buffer \<open>ac_buffer[AC_BUFFER_CAP]\<close> with its fill level \<open>ac_buffer_sz\<close>.\<close>

record ac =
  ac_buffer :: "nat \<Rightarrow> char"
  ac_buffer_sz :: nat

text \<open>The statements written to the DOT sink: a node declaration (identifier, label,
  whether it is drawn as terminal) and an edge (source, target, label).\<close>

datatype dot_stmt = Node_decl int char bool | Edge_stmt int int char

subsection \<open>memset on the children array\<close>

text \<open>\<open>memset(dst, c, n)\<close> stores \<open>(unsigned char) c\<close> in each of \<open>n\<close> bytes.\<close>

definition memset :: "int \<Rightarrow> nat \<Rightarrow> nat list" where
  "memset c n = replicate n (nat (c mod 256))"

text \<open>An \<open>int32_t\<close> read from four bytes in two's complement.\<close>

definition int32_of_bytes :: "nat list \<Rightarrow> int" where
  "int32_of_bytes bs =
     (let u = int (bs ! 0) + 256 * int (bs ! 1) + 65536 * int (bs ! 2) + 16777216 * int (bs ! 3)
      in if u \<ge> 2147483648 then u - 4294967296 else u)"

text \<open>The array \<open>children\<close> read from the \<open>sizeof children = 4 * CHILDREN_COUNT\<close> bytes.\<close>

definition children_of_bytes :: "nat list \<Rightarrow> int list" where
  "children_of_bytes bs = map (\<lambda>k. int32_of_bytes (take 4 (drop (4 * k) bs))) [0..<CHILDREN_COUNT]"

subsection \<open>The pool\<close>

text \<open>
  The allocator is a parameter \<open>grant\<close>: \<open>grant n\<close> says whether a request for a block of
  \<open>n\<close> cells succeeds. Requests of one run are for strictly growing sizes, so this
  covers every sequence of outcomes of malloc and realloc.
\<close>

definition Trie_static :: "(int \<Rightarrow> Node) \<Rightarrow> Trie" where
  "Trie_static mem = \<lparr>pool = mem, pool_cells = 0, count = 0, capacity = 0\<rparr>"

definition init_pool :: "(int \<Rightarrow> bool) \<Rightarrow> Trie \<Rightarrow> Trie \<times> bool" where
  "init_pool grant t =
     (if \<not> grant INITIAL_POOL_CAP then (t\<lparr>pool_cells := 0\<rparr>, False)
      else (t\<lparr>pool_cells := INITIAL_POOL_CAP, capacity := INITIAL_POOL_CAP\<rparr>, True))"

text \<open>A cell that may be read: inside the block and already written by \<open>alloc_node\<close>.\<close>

definition in_pool :: "Trie \<Rightarrow> int \<Rightarrow> bool" where
  "in_pool t i \<longleftrightarrow> 0 \<le> i \<and> i < count t \<and> i < pool_cells t"

text \<open>Lines 236 to 240 of \<open>alloc_node\<close>: initialise the cell at \<open>count\<close> and return its index.\<close>

definition new_node :: "Trie \<Rightarrow> fault + Trie \<times> int" where
  "new_node t =
     (if \<not> (0 \<le> count t \<and> count t < pool_cells t) then Inl Out_Of_Bounds
      else if count t = INT32_MAX then Inl Signed_Overflow
      else Inr (t\<lparr>pool := (pool t)(count t :=
                     \<lparr>children = children_of_bytes (memset INVALID_OFFSET (4 * CHILDREN_COUNT)),
                      terminal = False\<rparr>),
                   count := count t + 1\<rparr>, count t))"

definition alloc_node :: "(int \<Rightarrow> bool) \<Rightarrow> Trie \<Rightarrow> fault + Trie \<times> int" where
  "alloc_node grant t =
     (if count t \<ge> capacity t then
        (if capacity t < 0 then Inl Signed_Overflow
         else
           let remaining = INT32_MAX - capacity t in
           if remaining = 0 then Inl Exit_Failure
           else
             let t1 = t\<lparr>capacity := capacity t +
                         (if remaining < INITIAL_POOL_CAP then remaining else INITIAL_POOL_CAP)\<rparr>
             in if \<not> grant (capacity t1) then Inr (t1, INVALID_OFFSET)
                else new_node (t1\<lparr>pool_cells := capacity t1\<rparr>))
      else new_node t)"

subsection \<open>Insertion\<close>

text \<open>
  A C string is the list of its bytes before the terminating NUL. The slot of a byte is
  \<open>*text - ASCII_OFFSET\<close>; a slot outside the array is an out-of-bounds access.
\<close>

definition slot_of :: "char \<Rightarrow> int" where
  "slot_of c = of_char c - ASCII_OFFSET"

definition slot_ok :: "int \<Rightarrow> bool" where
  "slot_ok idx \<longleftrightarrow> 0 \<le> idx \<and> idx < int CHILDREN_COUNT"

definition child :: "Trie \<Rightarrow> int \<Rightarrow> int \<Rightarrow> int" where
  "child t i idx = children (pool t i) ! nat idx"

text \<open>The assignment \<open>Trie.pool[root_idx].children[idx] = tmp\<close>.\<close>

definition set_child :: "Trie \<Rightarrow> int \<Rightarrow> int \<Rightarrow> int \<Rightarrow> Trie" where
  "set_child t root_idx idx tmp =
     t\<lparr>pool := (pool t)(root_idx := (pool t root_idx)
          \<lparr>children := (children (pool t root_idx))[nat idx := tmp]\<rparr>)\<rparr>"

fun insert_text :: "(int \<Rightarrow> bool) \<Rightarrow> Trie \<Rightarrow> int \<Rightarrow> string \<Rightarrow> fault + Trie \<times> bool" where
  "insert_text grant t root_idx [] =
     (if \<not> in_pool t root_idx then Inl Out_Of_Bounds
      else Inr (t\<lparr>pool := (pool t)(root_idx := (pool t root_idx)\<lparr>terminal := True\<rparr>)\<rparr>, True))"
| "insert_text grant t root_idx (c # text) =
     (let idx = slot_of c in
      if \<not> in_pool t root_idx \<or> \<not> slot_ok idx then Inl Out_Of_Bounds
      else if child t root_idx idx = INVALID_OFFSET then
        (case alloc_node grant t of
           Inl f \<Rightarrow> Inl f
         | Inr (t1, tmp) \<Rightarrow>
             if tmp = INVALID_OFFSET then Inr (t1, False)
             else
               let t2 = set_child t1 root_idx idx tmp
               in insert_text grant t2 (child t2 root_idx idx) text)
      else insert_text grant t (child t root_idx idx) text)"

fun populate_trie :: "(int \<Rightarrow> bool) \<Rightarrow> Trie \<Rightarrow> int \<Rightarrow> string list \<Rightarrow> fault + Trie \<times> bool" where
  "populate_trie grant t root_idx [] = Inr (t, True)"
| "populate_trie grant t root_idx (l # lines) =
     (case insert_text grant t root_idx l of
        Inl f \<Rightarrow> Inl f
      | Inr (t1, ok) \<Rightarrow> if \<not> ok then Inr (t1, False) else populate_trie grant t1 root_idx lines)"

subsection \<open>The path buffer\<close>

definition ac_static :: ac where
  "ac_static = \<lparr>ac_buffer = (\<lambda>_. CHR 0x00), ac_buffer_sz = 0\<rparr>"

definition ac_buffer_push :: "ac \<Rightarrow> char \<Rightarrow> fault + ac" where
  "ac_buffer_push b ch =
     (if \<not> ac_buffer_sz b < AC_BUFFER_CAP then Inl Out_Of_Bounds
      else Inr (b\<lparr>ac_buffer := (ac_buffer b)(ac_buffer_sz b := ch),
                  ac_buffer_sz := ac_buffer_sz b + 1\<rparr>))"

definition ac_buffer_pop :: "ac \<Rightarrow> ac" where
  "ac_buffer_pop b = (if ac_buffer_sz b > 0 then b\<lparr>ac_buffer_sz := ac_buffer_sz b - 1\<rparr> else b)"

text \<open>The bytes \<open>fwrite(ac_buffer, ac_buffer_sz, 1, stdout)\<close> writes.\<close>

definition ac_contents :: "ac \<Rightarrow> string" where
  "ac_contents b = map (ac_buffer b) [0..<ac_buffer_sz b]"

subsection \<open>Prefix descent\<close>

fun find_prefix :: "Trie \<Rightarrow> int \<Rightarrow> string \<Rightarrow> ac \<Rightarrow> fault + int \<times> ac" where
  "find_prefix t root_idx [] b = Inr (root_idx, b)"
| "find_prefix t root_idx (c # pfx) b =
     (let child_idx = slot_of c in
      if \<not> in_pool t root_idx \<or> \<not> slot_ok child_idx then Inl Out_Of_Bounds
      else if child t root_idx child_idx = INVALID_OFFSET then Inr (INVALID_OFFSET, b)
      else
        (case ac_buffer_push b c of
           Inl f \<Rightarrow> Inl f
         | Inr b1 \<Rightarrow> find_prefix t (child t root_idx child_idx) pfx b1))"

subsection \<open>Suggestion collection\<close>

text \<open>
  The recursion of \<open>print_suggestions\<close> follows the child links, so it is bounded by
  fuel: \<open>None\<close> is a run that needs more nested calls than the fuel allows. Standard
  output is the list of lines written (each line is the buffer followed by a newline).
  The label of slot \<open>i\<close> is \<open>(char) (i + ASCII_OFFSET)\<close>.
\<close>

definition label_of :: "nat \<Rightarrow> char" where
  "label_of i = char_of (int i + ASCII_OFFSET)"

fun print_suggestions ::
  "nat \<Rightarrow> Trie \<Rightarrow> int \<Rightarrow> ac \<times> string list \<Rightarrow> (fault + ac \<times> string list) option" where
  "print_suggestions 0 t root_idx s = None"
| "print_suggestions (Suc fuel) t root_idx (b, out) =
     (if \<not> in_pool t root_idx then Some (Inl Out_Of_Bounds)
      else
        fold (\<lambda>i r.
               case r of
                 Some (Inr (b1, out1)) \<Rightarrow>
                   if child t root_idx (int i) \<noteq> INVALID_OFFSET then
                     (case ac_buffer_push b1 (label_of i) of
                        Inl f \<Rightarrow> Some (Inl f)
                      | Inr b2 \<Rightarrow>
                          (case print_suggestions fuel t (child t root_idx (int i)) (b2, out1) of
                             Some (Inr (b3, out3)) \<Rightarrow> Some (Inr (ac_buffer_pop b3, out3))
                           | r' \<Rightarrow> r'))
                   else r
               | _ \<Rightarrow> r)
          [0..<CHILDREN_COUNT]
          (Some (Inr (b, if terminal (pool t root_idx) then out @ [ac_contents b] else out))))"

subsection \<open>Graph export\<close>

text \<open>The three \<open>fprintf\<close> calls for the present slot \<open>i\<close> of node \<open>root_idx\<close>.\<close>

definition dot_lines :: "Trie \<Rightarrow> int \<Rightarrow> nat \<Rightarrow> dot_stmt list" where
  "dot_lines t root_idx i =
     (let child_index = child t root_idx (int i) in
      [Node_decl child_index (label_of i) (terminal (pool t child_index)),
       Edge_stmt root_idx child_index (label_of i)])"

fun dump_dot_prefix ::
  "nat \<Rightarrow> Trie \<Rightarrow> int \<Rightarrow> dot_stmt list \<Rightarrow> (fault + dot_stmt list) option" where
  "dump_dot_prefix 0 t root_idx sink = None"
| "dump_dot_prefix (Suc fuel) t root_idx sink =
     (if \<not> in_pool t root_idx then Some (Inl Out_Of_Bounds)
      else
        fold (\<lambda>i r.
               case r of
                 Some (Inr sink1) \<Rightarrow>
                   if child t root_idx (int i) \<noteq> INVALID_OFFSET then
                     (if \<not> in_pool t (child t root_idx (int i)) then Some (Inl Out_Of_Bounds)
                      else dump_dot_prefix fuel t (child t root_idx (int i))
                             (sink1 @ dot_lines t root_idx i))
                   else r
               | _ \<Rightarrow> r)
          [0..<CHILDREN_COUNT]
          (Some (Inr sink)))"

definition dump_dot_whole :: "Trie \<Rightarrow> dot_stmt list \<Rightarrow> fault + dot_stmt list" where
  "dump_dot_whole t sink =
     fold (\<lambda>i r.
            fold (\<lambda>j r1.
                   case r1 of
                     Inr sink1 \<Rightarrow>
                       if \<not> in_pool t (int i) then Inl Out_Of_Bounds
                       else if child t (int i) (int j) \<noteq> INVALID_OFFSET then
                         (if \<not> in_pool t (child t (int i) (int j)) then Inl Out_Of_Bounds
                          else Inr (sink1 @ dot_lines t (int i) j))
                       else r1
                   | _ \<Rightarrow> r1)
              [0..<CHILDREN_COUNT] r)
       [0..<nat (count t)]
       (Inr sink)"


section \<open>Notions used to state the properties\<close>

text \<open>A node as \<open>alloc_node\<close> leaves it.\<close>

definition bare :: Node where
  "bare = \<lparr>children = replicate CHILDREN_COUNT INVALID_OFFSET, terminal = False\<rparr>"

text \<open>Strings over the alphabet: every byte has a slot in the children array.\<close>

definition alphabet :: "string \<Rightarrow> bool" where
  "alphabet w \<longleftrightarrow> list_all (\<lambda>c. slot_ok (slot_of c)) w"

text \<open>Following the child links from node \<open>n\<close> along a string, without any effect.\<close>

fun walk :: "Trie \<Rightarrow> int \<Rightarrow> string \<Rightarrow> int option" where
  "walk t n [] = Some n"
| "walk t n (c # cs) =
     (if in_pool t n \<and> slot_ok (slot_of c) \<and> child t n (slot_of c) \<noteq> INVALID_OFFSET
      then walk t (child t n (slot_of c)) cs else None)"

text \<open>
  The structural invariant: the counters are ordered, every node in use has its
  \<open>CHILDREN_COUNT\<close> slots, and every slot is absent or an identifier in use.
\<close>

definition pool_valid :: "Trie \<Rightarrow> bool" where
  "pool_valid t \<longleftrightarrow>
     0 \<le> count t \<and> count t \<le> pool_cells t \<and> pool_cells t \<le> capacity t \<and>
     capacity t \<le> INT32_MAX \<and>
     (\<forall>i. 0 \<le> i \<and> i < count t \<longrightarrow>
        length (children (pool t i)) = CHILDREN_COUNT \<and>
        (\<forall>k < CHILDREN_COUNT. children (pool t i) ! k = INVALID_OFFSET \<or>
           (0 \<le> children (pool t i) ! k \<and> children (pool t i) ! k < count t)))"

text \<open>The links form a forest: a child has a larger identifier than its parent, and no
  node is the child of two slots.\<close>

definition tree_inv :: "Trie \<Rightarrow> bool" where
  "tree_inv t \<longleftrightarrow>
     pool_valid t \<and>
     (\<forall>i k. 0 \<le> i \<and> i < count t \<and> k < CHILDREN_COUNT \<and>
        children (pool t i) ! k \<noteq> INVALID_OFFSET \<longrightarrow> i < children (pool t i) ! k) \<and>
     (\<forall>i j k l. 0 \<le> i \<and> i < count t \<and> 0 \<le> j \<and> j < count t \<and>
        k < CHILDREN_COUNT \<and> l < CHILDREN_COUNT \<and>
        children (pool t i) ! k \<noteq> INVALID_OFFSET \<and>
        children (pool t i) ! k = children (pool t j) ! l \<longrightarrow> i = j \<and> k = l)"

text \<open>A later pool extends an earlier one: present links stay, absent slots stay absent or
  point to nodes allocated since.\<close>

definition ext :: "Trie \<Rightarrow> Trie \<Rightarrow> bool" where
  "ext t t' \<longleftrightarrow>
     count t \<le> count t' \<and>
     (\<forall>i k. 0 \<le> i \<and> i < count t \<and> k < CHILDREN_COUNT \<longrightarrow>
        (children (pool t i) ! k \<noteq> INVALID_OFFSET \<longrightarrow>
           children (pool t' i) ! k = children (pool t i) ! k) \<and>
        (children (pool t i) ! k = INVALID_OFFSET \<longrightarrow>
           children (pool t' i) ! k = INVALID_OFFSET \<or> count t \<le> children (pool t' i) ! k))"


text \<open>An allocator that grants every request, one that grants blocks of at most \<open>m\<close>
  cells, and a heap whose cells hold no usable node.\<close>

definition grant_all :: "int \<Rightarrow> bool" where
  "grant_all n = True"

definition grant_upto :: "int \<Rightarrow> int \<Rightarrow> bool" where
  "grant_upto m n \<longleftrightarrow> n \<le> m"

definition blank :: "int \<Rightarrow> Node" where
  "blank i = \<lparr>children = [], terminal = False\<rparr>"

text \<open>A pool whose \<open>n\<close> cells are all in use, each holding a node without children.\<close>

definition full_pool :: "int \<Rightarrow> Trie" where
  "full_pool n = \<lparr>pool = (\<lambda>i. bare), pool_cells = n, count = n, capacity = n\<rparr>"

definition terminals :: "Trie \<Rightarrow> int set" where
  "terminals t = {x. in_pool t x \<and> terminal (pool t x)}"

definition accepts :: "Trie \<Rightarrow> int \<Rightarrow> string \<Rightarrow> bool" where
  "accepts t n w \<longleftrightarrow> (\<exists>m. walk t n w = Some m \<and> m \<in> terminals t)"

definition fits :: "Trie \<Rightarrow> int \<Rightarrow> nat \<Rightarrow> bool" where
  "fits t n s \<longleftrightarrow> (\<forall>v x. walk t n v = Some x \<longrightarrow> s + length v \<le> AC_BUFFER_CAP)"

definition ps_step ::
  "nat \<Rightarrow> Trie \<Rightarrow> int \<Rightarrow> nat \<Rightarrow> (fault + ac \<times> string list) option \<Rightarrow> (fault + ac \<times> string list) option" where
  "ps_step fuel t root_idx i r =
     (case r of
        Some (Inr (b1, out1)) \<Rightarrow>
          if child t root_idx (int i) \<noteq> INVALID_OFFSET then
            (case ac_buffer_push b1 (label_of i) of
               Inl f \<Rightarrow> Some (Inl f)
             | Inr b2 \<Rightarrow>
                 (case print_suggestions fuel t (child t root_idx (int i)) (b2, out1) of
                    Some (Inr (b3, out3)) \<Rightarrow> Some (Inr (ac_buffer_pop b3, out3))
                  | r' \<Rightarrow> r'))
          else r
      | _ \<Rightarrow> r)"

text \<open>
  The start of \<open>main\<close>: the pool is created, the root is allocated and the lines are
  inserted; \<open>None\<close> is the failure exit \<open>rv = false\<close>.
\<close>

definition build :: "(int \<Rightarrow> bool) \<Rightarrow> (int \<Rightarrow> Node) \<Rightarrow> string list \<Rightarrow> fault + (Trie \<times> int) option" where
  "build grant mem lines =
     (case init_pool grant (Trie_static mem) of
        (t0, ok0) \<Rightarrow>
          if \<not> ok0 then Inr None
          else
            (case alloc_node grant t0 of
               Inl f \<Rightarrow> Inl f
             | Inr (t1, root_idx) \<Rightarrow>
                 if root_idx = INVALID_OFFSET then Inr None
                 else
                   (case populate_trie grant t1 root_idx lines of
                      Inl f \<Rightarrow> Inl f
                    | Inr (t2, ok) \<Rightarrow> if \<not> ok then Inr None else Inr (Some (t2, root_idx)))))"

definition paths_in :: "Trie \<Rightarrow> int \<Rightarrow> string set \<Rightarrow> bool" where
  "paths_in t r W \<longleftrightarrow> (\<forall>v x. walk t r v = Some x \<longrightarrow> v = [] \<or> (\<exists>w\<in>W. prefix v w))"

text \<open>The first scenario of the specification: four words and the query \<open>ca\<close>.\<close>

definition demo_words :: "string list" where
  "demo_words = [''cat'', ''car'', ''cart'', ''dog'']"

definition demo_trie :: Trie where
  "demo_trie = fst (the (projr (build grant_all blank demo_words)))"

definition demo_node :: int where
  "demo_node = fst (projr (find_prefix demo_trie 0 ''ca'' ac_static))"

definition demo_buf :: ac where
  "demo_buf = snd (projr (find_prefix demo_trie 0 ''ca'' ac_static))"

text \<open>The trie that holds the root only, and the trie after inserting one word of
  \<open>AC_BUFFER_CAP + 1\<close> bytes into it.\<close>

definition start_trie :: Trie where
  "start_trie = fst (init_pool grant_all (Trie_static blank))"

definition root_trie :: Trie where
  "root_trie = fst (projr (alloc_node grant_all start_trie))"

definition long_word :: string where
  "long_word = replicate 2049 (CHR ''a'')"

definition long_trie :: Trie where
  "long_trie = fst (projr (insert_text grant_all root_trie 0 long_word))"

text \<open>One word inserted into the root trie, and another one after it.\<close>

definition cat_trie :: Trie where
  "cat_trie = fst (projr (insert_text grant_all root_trie 0 ''cat''))"

definition cat_car_trie :: Trie where
  "cat_car_trie = fst (projr (populate_trie grant_all cat_trie 0 [''car'']))"

text \<open>The bytes of a prefix that descent matches before it meets an absent slot.\<close>

fun matched :: "Trie \<Rightarrow> int \<Rightarrow> string \<Rightarrow> string" where
  "matched t n [] = []"
| "matched t n (c # cs) =
     (if child t n (slot_of c) \<noteq> INVALID_OFFSET then c # matched t (child t n (slot_of c)) cs
      else [])"

text \<open>The invariant of the specification, slot by slot.\<close>

definition slots_valid :: "Trie \<Rightarrow> bool" where
  "slots_valid t \<longleftrightarrow>
     (\<forall>i k. in_pool t i \<and> k < CHILDREN_COUNT \<longrightarrow>
        children (pool t i) ! k = INVALID_OFFSET \<or>
        (0 \<le> children (pool t i) ! k \<and> children (pool t i) ! k < count t))"

text \<open>A word of \<open>AC_BUFFER_CAP + 1\<close> bytes and a word of one byte: two completions of
  the empty prefix.\<close>

definition two_words :: "string list" where
  "two_words = [long_word, ''b'']"

definition two_trie :: Trie where
  "two_trie = fst (the (projr (build grant_all blank two_words)))"

text \<open>Edge statements, the present slots of a node, and the nodes reachable from a node
  along present slots.\<close>

fun is_edge :: "dot_stmt \<Rightarrow> bool" where
  "is_edge (Edge_stmt a b l) = True"
| "is_edge (Node_decl a l g) = False"

definition present_slots :: "Trie \<Rightarrow> int \<Rightarrow> nat set" where
  "present_slots t m = {k. k < CHILDREN_COUNT \<and> children (pool t m) ! k \<noteq> INVALID_OFFSET}"

inductive_set reach :: "Trie \<Rightarrow> int \<Rightarrow> int set" for t :: Trie and R :: int where
  reach_root: "R \<in> reach t R"
| reach_child: "m \<in> reach t R \<Longrightarrow> in_pool t m \<Longrightarrow> k \<in> present_slots t m \<Longrightarrow>
     children (pool t m) ! k \<in> reach t R"

text \<open>The number of present child slots summed over the nodes reachable from a node.\<close>

definition slot_total :: "Trie \<Rightarrow> int \<Rightarrow> nat" where
  "slot_total t n = (\<Sum>m\<in>reach t n. card (present_slots t m))"

definition dw_inner :: "Trie \<Rightarrow> nat \<Rightarrow> nat \<Rightarrow> fault + dot_stmt list \<Rightarrow> fault + dot_stmt list" where
  "dw_inner t i j r1 =
     (case r1 of
        Inr sink1 \<Rightarrow>
          if \<not> in_pool t (int i) then Inl Out_Of_Bounds
          else if child t (int i) (int j) \<noteq> INVALID_OFFSET then
            (if \<not> in_pool t (child t (int i) (int j)) then Inl Out_Of_Bounds
             else Inr (sink1 @ dot_lines t (int i) j))
          else r1
      | _ \<Rightarrow> r1)"

definition dp_step ::
  "nat \<Rightarrow> Trie \<Rightarrow> int \<Rightarrow> nat \<Rightarrow> (fault + dot_stmt list) option \<Rightarrow> (fault + dot_stmt list) option" where
  "dp_step fuel t root_idx i r =
     (case r of
        Some (Inr sink1) \<Rightarrow>
          if child t root_idx (int i) \<noteq> INVALID_OFFSET then
            (if \<not> in_pool t (child t root_idx (int i)) then Some (Inl Out_Of_Bounds)
             else dump_dot_prefix fuel t (child t root_idx (int i))
                    (sink1 @ dot_lines t root_idx i))
          else r
      | _ \<Rightarrow> r)"

text \<open>The trie that holds the words \<open>a\<close> and \<open>b\<close>, cell by cell.\<close>

definition ab_trie :: Trie where
  "ab_trie =
     \<lparr>pool = (\<lambda>i. bare)
        (0 := \<lparr>children = (replicate CHILDREN_COUNT INVALID_OFFSET)[65 := 1, 66 := 2],
               terminal = False\<rparr>,
         1 := \<lparr>children = replicate CHILDREN_COUNT INVALID_OFFSET, terminal = True\<rparr>,
         2 := \<lparr>children = replicate CHILDREN_COUNT INVALID_OFFSET, terminal = True\<rparr>),
      pool_cells = 2048, count = 3, capacity = 2048\<rparr>"

section \<open>Node allocation\<close>

lemma int32_of_bytes_ff: "int32_of_bytes (replicate 4 255) = - 1"
  by (simp add: int32_of_bytes_def)

lemma memset_children:
  "children_of_bytes (memset INVALID_OFFSET (4 * CHILDREN_COUNT)) =
     replicate CHILDREN_COUNT INVALID_OFFSET"
proof -
  have "\<And>k. k < CHILDREN_COUNT \<Longrightarrow>
          take 4 (drop (4 * k) (memset INVALID_OFFSET (4 * CHILDREN_COUNT))) = replicate 4 255"
    by (simp add: memset_def INVALID_OFFSET_def CHILDREN_COUNT_def min_def)
  then have "children_of_bytes (memset INVALID_OFFSET (4 * CHILDREN_COUNT)) =
               map (\<lambda>k. INVALID_OFFSET) [0..<CHILDREN_COUNT]"
    unfolding children_of_bytes_def
    by (intro map_cong) (simp_all add: int32_of_bytes_ff INVALID_OFFSET_def)
  then show ?thesis by (simp add: map_replicate_const)
qed

lemma new_node_Inr:
  "new_node t = Inr (t', r) \<Longrightarrow>
     r = count t \<and> 0 \<le> r \<and> r < pool_cells t \<and> r \<noteq> INT32_MAX \<and>
     t' = t\<lparr>pool := (pool t)(r := \<lparr>children = replicate CHILDREN_COUNT INVALID_OFFSET,
                                  terminal = False\<rparr>),
            count := r + 1\<rparr>"
  by (auto simp: new_node_def memset_children split: if_splits)

lemma alloc_node_cases:
  assumes "alloc_node grant t = Inr (t', r)"
  shows "(r = INVALID_OFFSET \<and> count t \<ge> capacity t \<and> pool t' = pool t \<and>
          count t' = count t \<and> pool_cells t' = pool_cells t) \<or>
         (r = count t \<and> 0 \<le> r \<and> r < pool_cells t' \<and> r \<noteq> INT32_MAX \<and> count t' = r + 1 \<and>
          pool t' = (pool t)(r := \<lparr>children = replicate CHILDREN_COUNT INVALID_OFFSET,
                                     terminal = False\<rparr>) \<and>
          (if count t \<ge> capacity t then pool_cells t' = capacity t'
           else pool_cells t' = pool_cells t \<and> capacity t' = capacity t))"
  using assms
  by (auto simp: alloc_node_def Let_def split: if_splits dest!: new_node_Inr)

text \<open>
  C9. Every successful allocation returns the identifier \<open>count\<close>, which was not in use
  before and is in use afterwards; the node at that identifier has all
  \<open>CHILDREN_COUNT\<close> child slots equal to \<open>INVALID_OFFSET\<close> (the bytes 0xFF that memset
  writes read back as the 32-bit value -1) and is not terminal; no other cell changes.
\<close>

theorem alloc_node_fresh:
  assumes "alloc_node grant t = Inr (t', r)" and "r \<noteq> INVALID_OFFSET"
  shows "r = count t \<and> \<not> in_pool t r \<and> in_pool t' r \<and> count t' = count t + 1 \<and>
         children (pool t' r) = replicate CHILDREN_COUNT INVALID_OFFSET \<and>
         children_of_bytes (memset INVALID_OFFSET (4 * CHILDREN_COUNT)) = children (pool t' r) \<and>
         \<not> terminal (pool t' r) \<and>
         pool t' = (pool t)(r := pool t' r)"
  using alloc_node_cases[OF assms(1)] assms(2)
  by (auto simp: in_pool_def memset_children)

theorem alloc_node_fresh_witness:
  "alloc_node grant_all (fst (init_pool grant_all (Trie_static blank))) =
     Inr (\<lparr>pool = blank(0 := \<lparr>children = replicate CHILDREN_COUNT INVALID_OFFSET,
                               terminal = False\<rparr>),
           pool_cells = 2048, count = 1, capacity = 2048\<rparr>, 0) \<and>
   0 \<noteq> INVALID_OFFSET \<and>
   \<not> in_pool (fst (init_pool grant_all (Trie_static blank))) 0 \<and>
   children (pool \<lparr>pool = blank(0 := \<lparr>children = replicate CHILDREN_COUNT INVALID_OFFSET,
                                         terminal = False\<rparr>),
                    pool_cells = 2048, count = 1, capacity = 2048\<rparr> 0) =
     replicate CHILDREN_COUNT INVALID_OFFSET"
proof -
  have run: "alloc_node grant_all (fst (init_pool grant_all (Trie_static blank))) =
     Inr (\<lparr>pool = blank(0 := \<lparr>children = replicate CHILDREN_COUNT INVALID_OFFSET,
                               terminal = False\<rparr>),
           pool_cells = 2048, count = 1, capacity = 2048\<rparr>, 0)"
    by (simp add: alloc_node_def new_node_def init_pool_def Trie_static_def grant_all_def
        INITIAL_POOL_CAP_def INT32_MAX_def memset_children)
  have ne: "0 \<noteq> INVALID_OFFSET"
    by (simp add: INVALID_OFFSET_def)
  from alloc_node_fresh[OF run ne] run ne show ?thesis
    by simp
qed

text \<open>
  C5 as the code has it. When allocation finds \<open>count\<close> equal to \<open>capacity\<close> below
  \<open>INT32_MAX\<close>, the capacity grows by \<open>INITIAL_POOL_CAP\<close> cells (it does not double), or
  by the remaining headroom \<open>INT32_MAX - capacity\<close> when that is smaller; the new
  capacity never exceeds \<open>INT32_MAX\<close>. The capacity field grows whether or not the
  allocator grants the larger block.
\<close>

theorem alloc_node_growth:
  assumes "0 \<le> capacity t" and "count t = capacity t" and "capacity t < INT32_MAX"
    and "pool_cells t = capacity t"
  shows "\<exists>t' r. alloc_node grant t = Inr (t', r) \<and>
           capacity t' = (if INT32_MAX - capacity t < INITIAL_POOL_CAP then INT32_MAX
                          else capacity t + INITIAL_POOL_CAP) \<and>
           capacity t < capacity t' \<and> capacity t' \<le> INT32_MAX \<and>
           (r \<noteq> INVALID_OFFSET \<longleftrightarrow> grant (capacity t'))"
  using assms
  by (auto simp: alloc_node_def new_node_def Let_def INITIAL_POOL_CAP_def INT32_MAX_def
      INVALID_OFFSET_def)

theorem alloc_node_growth_witness:
  "(0::int) \<le> capacity (full_pool 2147483000) \<and>
   count (full_pool 2147483000) = capacity (full_pool 2147483000) \<and>
   capacity (full_pool 2147483000) < INT32_MAX \<and>
   pool_cells (full_pool 2147483000) = capacity (full_pool 2147483000) \<and>
   (\<exists>t' r. alloc_node grant_all (full_pool 2147483000) = Inr (t', r) \<and>
      capacity t' = 2147483647 \<and> r \<noteq> INVALID_OFFSET)"
  using alloc_node_growth[of "full_pool 2147483000" grant_all]
  by (auto simp: full_pool_def INT32_MAX_def INITIAL_POOL_CAP_def grant_all_def)

theorem alloc_node_not_doubling:
  "alloc_node grant_all (full_pool 4096) =
     Inr (\<lparr>pool = (\<lambda>i. bare)(4096 := \<lparr>children = replicate CHILDREN_COUNT INVALID_OFFSET,
                                  terminal = False\<rparr>),
           pool_cells = 6144, count = 4097, capacity = 6144\<rparr>, 4096) \<and>
   (6144::int) \<noteq> 2 * capacity (full_pool 4096)"
  by (simp add: alloc_node_def new_node_def full_pool_def grant_all_def
      INITIAL_POOL_CAP_def INT32_MAX_def memset_children)

lemma in_pool_valid: "pool_valid t \<Longrightarrow> in_pool t i \<longleftrightarrow> 0 \<le> i \<and> i < count t"
  by (auto simp: in_pool_def pool_valid_def)

lemma slot_okD: "slot_ok idx \<Longrightarrow> 0 \<le> idx \<and> nat idx < CHILDREN_COUNT"
  by (auto simp: slot_ok_def)

lemma ext_refl: "ext t t"
  by (simp add: ext_def)

lemma ext_trans:
  assumes "ext t t1" "ext t1 t2"
  shows "ext t t2"
  unfolding ext_def
proof (intro conjI allI impI)
  show "count t \<le> count t2" using assms by (simp add: ext_def)
next
  fix i k assume ik: "0 \<le> i \<and> i < count t \<and> k < CHILDREN_COUNT"
  then have ik1: "0 \<le> i \<and> i < count t1 \<and> k < CHILDREN_COUNT" using assms(1) by (auto simp: ext_def)
  { assume "children (pool t i) ! k \<noteq> INVALID_OFFSET"
    then show "children (pool t2 i) ! k = children (pool t i) ! k"
      using assms ik ik1 unfolding ext_def by metis }
  { assume a: "children (pool t i) ! k = INVALID_OFFSET"
    show "children (pool t2 i) ! k = INVALID_OFFSET \<or> count t \<le> children (pool t2 i) ! k"
    proof (cases "children (pool t1 i) ! k = INVALID_OFFSET")
      case True
      then have "children (pool t2 i) ! k = INVALID_OFFSET \<or> count t1 \<le> children (pool t2 i) ! k"
        using assms(2) ik1 unfolding ext_def by blast
      moreover have "count t \<le> count t1" using assms(1) by (simp add: ext_def)
      ultimately show ?thesis by auto
    next
      case False
      then have "children (pool t2 i) ! k = children (pool t1 i) ! k"
        using assms(2) ik1 unfolding ext_def by blast
      moreover have "count t \<le> children (pool t1 i) ! k"
        using assms(1) ik a False unfolding ext_def by blast
      ultimately show ?thesis by simp
    qed }
qed


lemma alloc_node_capacity:
  "alloc_node grant t = Inr (t', r) \<Longrightarrow> capacity t \<le> INT32_MAX \<Longrightarrow>
     capacity t \<le> capacity t' \<and> capacity t' \<le> INT32_MAX"
  by (auto simp: alloc_node_def Let_def INITIAL_POOL_CAP_def split: if_splits dest!: new_node_Inr)

lemma alloc_node_fail_valid:
  assumes "alloc_node grant t = Inr (t', INVALID_OFFSET)" "pool_valid t"
  shows "pool_valid t' \<and> pool t' = pool t \<and> count t' = count t"
proof -
  have "INVALID_OFFSET \<noteq> count t" using assms(2) by (auto simp: pool_valid_def INVALID_OFFSET_def)
  with alloc_node_cases[OF assms(1)] alloc_node_capacity[OF assms(1)] assms(2)
  show ?thesis
    by (auto simp: pool_valid_def)
qed

lemma alloc_node_ok_shape:
  assumes "alloc_node grant t = Inr (t1, tmp)" "tmp \<noteq> INVALID_OFFSET" "pool_valid t"
  shows "tmp = count t \<and> count t1 = count t + 1 \<and> pool t1 = (pool t)(count t := bare) \<and>
         count t1 \<le> pool_cells t1 \<and> pool_cells t1 \<le> capacity t1 \<and> capacity t1 \<le> INT32_MAX \<and>
         (pool_cells t = capacity t \<longrightarrow> pool_cells t1 = capacity t1)"
  using alloc_node_cases[OF assms(1)] alloc_node_capacity[OF assms(1)] assms(2,3)
  by (auto simp: pool_valid_def bare_def split: if_splits)

lemma alloc_node_valid:
  assumes "alloc_node grant t = Inr (t1, tmp)" "pool_valid t"
  shows "pool_valid t1"
proof (cases "tmp = INVALID_OFFSET")
  case True
  then show ?thesis using alloc_node_fail_valid assms by blast
next
  case False
  note sh = alloc_node_ok_shape[OF assms(1) False assms(2)]
  show ?thesis
    unfolding pool_valid_def
  proof (intro conjI allI impI)
    fix i assume i: "0 \<le> i \<and> i < count t1"
    show "length (children (pool t1 i)) = CHILDREN_COUNT"
      using sh i assms(2) by (cases "i = count t") (auto simp: pool_valid_def bare_def)
    fix k assume k: "k < CHILDREN_COUNT"
    show "children (pool t1 i) ! k = INVALID_OFFSET \<or>
           0 \<le> children (pool t1 i) ! k \<and> children (pool t1 i) ! k < count t1"
    proof (cases "i = count t")
      case True
      then show ?thesis using sh k by (simp add: bare_def)
    next
      case False
      then have "i < count t" "pool t1 i = pool t i" using sh i by auto
      then show ?thesis using assms(2) i k sh unfolding pool_valid_def by fastforce
    qed
  qed (use sh assms(2) in \<open>auto simp: pool_valid_def\<close>)
qed

lemma set_child_shape:
  assumes al: "alloc_node grant t = Inr (t1, tmp)" and ne: "tmp \<noteq> INVALID_OFFSET"
    and pv: "pool_valid t" and r: "in_pool t root_idx" and idx: "slot_ok idx"
  shows "count (set_child t1 root_idx idx tmp) = count t + 1"
    and "pool_cells (set_child t1 root_idx idx tmp) = pool_cells t1"
    and "capacity (set_child t1 root_idx idx tmp) = capacity t1"
    and "pool (set_child t1 root_idx idx tmp) (count t) = bare"
    and "children (pool (set_child t1 root_idx idx tmp) root_idx) = (children (pool t root_idx))[nat idx := count t]"
    and "terminal (pool (set_child t1 root_idx idx tmp) root_idx) = terminal (pool t root_idx)"
    and "\<And>i. i \<noteq> root_idx \<Longrightarrow> i \<noteq> count t \<Longrightarrow> pool (set_child t1 root_idx idx tmp) i = pool t i"
    and "child (set_child t1 root_idx idx tmp) root_idx idx = count t"
proof -
  note sh = alloc_node_ok_shape[OF al ne pv]
  have rc: "root_idx \<noteq> count t" using r by (auto simp: in_pool_def)
  have len: "nat idx < length (children (pool t root_idx))"
    using pv r idx by (auto simp: pool_valid_def in_pool_def dest: slot_okD)
  show "count (set_child t1 root_idx idx tmp) = count t + 1" using sh by (simp add: set_child_def)
  show "pool_cells (set_child t1 root_idx idx tmp) = pool_cells t1" by (simp add: set_child_def)
  show "capacity (set_child t1 root_idx idx tmp) = capacity t1" by (simp add: set_child_def)
  show "pool (set_child t1 root_idx idx tmp) (count t) = bare" using sh rc by (simp add: set_child_def)
  show "children (pool (set_child t1 root_idx idx tmp) root_idx) = (children (pool t root_idx))[nat idx := count t]"
    using sh rc by (simp add: set_child_def)
  show "terminal (pool (set_child t1 root_idx idx tmp) root_idx) = terminal (pool t root_idx)"
    using sh rc by (simp add: set_child_def)
  show "\<And>i. i \<noteq> root_idx \<Longrightarrow> i \<noteq> count t \<Longrightarrow> pool (set_child t1 root_idx idx tmp) i = pool t i"
    using sh by (simp add: set_child_def)
  show "child (set_child t1 root_idx idx tmp) root_idx idx = count t"
    using sh rc len by (simp add: set_child_def child_def)
qed


lemma set_child_nth:
  assumes al: "alloc_node grant t = Inr (t1, tmp)" and ne: "tmp \<noteq> INVALID_OFFSET"
    and pv: "pool_valid t" and r: "in_pool t root_idx" and idx: "slot_ok idx"
    and i: "0 \<le> i" "i \<le> count t"
  shows "k < CHILDREN_COUNT \<Longrightarrow> children (pool (set_child t1 root_idx idx tmp) i) ! k =
           (if i = root_idx \<and> k = nat idx then count t
            else if i = count t then INVALID_OFFSET else children (pool t i) ! k)"
    and "length (children (pool (set_child t1 root_idx idx tmp) i)) = CHILDREN_COUNT"
proof -
  note sh = set_child_shape[OF al ne pv r idx]
  have rc: "root_idx \<noteq> count t" using r by (auto simp: in_pool_def)
  have len: "length (children (pool t root_idx)) = CHILDREN_COUNT"
    using pv r by (auto simp: pool_valid_def in_pool_def)
  show "children (pool (set_child t1 root_idx idx tmp) i) ! k =
           (if i = root_idx \<and> k = nat idx then count t
            else if i = count t then INVALID_OFFSET else children (pool t i) ! k)"
    if k: "k < CHILDREN_COUNT"
  proof (cases "i = root_idx")
    case True
    then show ?thesis using sh(5) len k rc by (simp add: nth_list_update)
  next
    case False
    then show ?thesis using sh(4) sh(7)[of i] k by (auto simp: bare_def)
  qed
  show "length (children (pool (set_child t1 root_idx idx tmp) i)) = CHILDREN_COUNT"
  proof (cases "i = root_idx")
    case True
    then show ?thesis using sh(5) len by simp
  next
    case False
    then show ?thesis using sh(4) sh(7)[of i] i pv by (cases "i = count t") (auto simp: bare_def pool_valid_def)
  qed
qed

lemma set_child_valid:
  assumes al: "alloc_node grant t = Inr (t1, tmp)" and ne: "tmp \<noteq> INVALID_OFFSET"
    and pv: "pool_valid t" and r: "in_pool t root_idx" and idx: "slot_ok idx"
  shows "pool_valid (set_child t1 root_idx idx tmp)"
proof -
  note sh = set_child_shape[OF al ne pv r idx]
  note a = alloc_node_ok_shape[OF al ne pv]
  have nth: "\<And>i k. 0 \<le> i \<Longrightarrow> i \<le> count t \<Longrightarrow> k < CHILDREN_COUNT \<Longrightarrow>
     children (pool (set_child t1 root_idx idx tmp) i) ! k =
           (if i = root_idx \<and> k = nat idx then count t
            else if i = count t then INVALID_OFFSET else children (pool t i) ! k)"
    using set_child_nth(1)[OF al ne pv r idx] by blast
  note len = set_child_nth(2)[OF al ne pv r idx]
  show ?thesis
    unfolding pool_valid_def
  proof (intro conjI allI impI)
    fix i assume i: "0 \<le> i \<and> i < count (set_child t1 root_idx idx tmp)"
    then have i': "0 \<le> i" "i \<le> count t" using sh(1) by auto
    show "length (children (pool (set_child t1 root_idx idx tmp) i)) = CHILDREN_COUNT"
      using len[OF i'] by simp
    fix k assume k: "k < CHILDREN_COUNT"
    have old: "i < count t \<Longrightarrow> children (pool t i) ! k = INVALID_OFFSET \<or>
           0 \<le> children (pool t i) ! k \<and> children (pool t i) ! k < count t"
      using pv i' k unfolding pool_valid_def by blast
    show "children (pool (set_child t1 root_idx idx tmp) i) ! k = INVALID_OFFSET \<or>
           0 \<le> children (pool (set_child t1 root_idx idx tmp) i) ! k \<and>
           children (pool (set_child t1 root_idx idx tmp) i) ! k < count (set_child t1 root_idx idx tmp)"
      using old i' pv nth[OF i' k] sh(1) by (auto simp: pool_valid_def)
  qed (use sh a pv in \<open>auto simp: pool_valid_def\<close>)
qed

lemma set_child_ext:
  assumes al: "alloc_node grant t = Inr (t1, tmp)" and ne: "tmp \<noteq> INVALID_OFFSET"
    and pv: "pool_valid t" and r: "in_pool t root_idx" and idx: "slot_ok idx"
    and absent: "child t root_idx idx = INVALID_OFFSET"
  shows "ext t (set_child t1 root_idx idx tmp)"
  unfolding ext_def
proof (intro conjI allI impI)
  show "count t \<le> count (set_child t1 root_idx idx tmp)"
    using set_child_shape(1)[OF al ne pv r idx] by simp
next
  fix i k assume ik: "0 \<le> i \<and> i < count t \<and> k < CHILDREN_COUNT"
  then have nth: "children (pool (set_child t1 root_idx idx tmp) i) ! k =
           (if i = root_idx \<and> k = nat idx then count t else children (pool t i) ! k)"
    using set_child_nth(1)[OF al ne pv r idx, of i k] by auto
  { assume "children (pool t i) ! k \<noteq> INVALID_OFFSET"
    then show "children (pool (set_child t1 root_idx idx tmp) i) ! k = children (pool t i) ! k"
      using nth absent by (auto simp: child_def) }
  { assume "children (pool t i) ! k = INVALID_OFFSET"
    then show "children (pool (set_child t1 root_idx idx tmp) i) ! k = INVALID_OFFSET \<or>
         count t \<le> children (pool (set_child t1 root_idx idx tmp) i) ! k"
      using nth by auto }
qed

lemma set_child_tree:
  assumes al: "alloc_node grant t = Inr (t1, tmp)" and ne: "tmp \<noteq> INVALID_OFFSET"
    and ti: "tree_inv t" and r: "in_pool t root_idx" and idx: "slot_ok idx"
    and absent: "child t root_idx idx = INVALID_OFFSET"
  shows "tree_inv (set_child t1 root_idx idx tmp)"
proof -
  have pv: "pool_valid t" using ti by (simp add: tree_inv_def)
  note sh = set_child_shape[OF al ne pv r idx]
  have nth: "\<And>i k. 0 \<le> i \<Longrightarrow> i \<le> count t \<Longrightarrow> k < CHILDREN_COUNT \<Longrightarrow>
     children (pool (set_child t1 root_idx idx tmp) i) ! k =
           (if i = root_idx \<and> k = nat idx then count t
            else if i = count t then INVALID_OFFSET else children (pool t i) ! k)"
    using set_child_nth(1)[OF al ne pv r idx] by blast
  have r': "0 \<le> root_idx" "root_idx < count t" using r by (auto simp: in_pool_def)
  have old_lt: "\<And>i k. 0 \<le> i \<Longrightarrow> i < count t \<Longrightarrow> k < CHILDREN_COUNT \<Longrightarrow>
      children (pool t i) ! k \<noteq> INVALID_OFFSET \<Longrightarrow>
      i < children (pool t i) ! k \<and> children (pool t i) ! k < count t"
    using ti unfolding tree_inv_def pool_valid_def by blast
  have old_inj: "\<And>i j k l. 0 \<le> i \<Longrightarrow> i < count t \<Longrightarrow> 0 \<le> j \<Longrightarrow> j < count t \<Longrightarrow>
        k < CHILDREN_COUNT \<Longrightarrow> l < CHILDREN_COUNT \<Longrightarrow>
        children (pool t i) ! k \<noteq> INVALID_OFFSET \<Longrightarrow>
        children (pool t i) ! k = children (pool t j) ! l \<Longrightarrow> i = j \<and> k = l"
    using ti unfolding tree_inv_def by blast
  have cinv: "count t \<noteq> INVALID_OFFSET" using pv by (auto simp: pool_valid_def INVALID_OFFSET_def)
  show ?thesis
    unfolding tree_inv_def
  proof (intro conjI allI impI)
    show "pool_valid (set_child t1 root_idx idx tmp)"
      by (rule set_child_valid[OF al ne pv r idx])
  next
    fix i k
    assume a: "0 \<le> i \<and> i < count (set_child t1 root_idx idx tmp) \<and> k < CHILDREN_COUNT \<and>
       children (pool (set_child t1 root_idx idx tmp) i) ! k \<noteq> INVALID_OFFSET"
    then have i: "0 \<le> i" "i \<le> count t" and k: "k < CHILDREN_COUNT" using sh(1) by auto
    show "i < children (pool (set_child t1 root_idx idx tmp) i) ! k"
      using a nth[OF i k] old_lt[of i k] i r' by (auto split: if_splits)
  next
    fix i j k l
    assume a: "0 \<le> i \<and> i < count (set_child t1 root_idx idx tmp) \<and>
       0 \<le> j \<and> j < count (set_child t1 root_idx idx tmp) \<and>
       k < CHILDREN_COUNT \<and> l < CHILDREN_COUNT \<and>
       children (pool (set_child t1 root_idx idx tmp) i) ! k \<noteq> INVALID_OFFSET \<and>
       children (pool (set_child t1 root_idx idx tmp) i) ! k =
       children (pool (set_child t1 root_idx idx tmp) j) ! l"
    then have i: "0 \<le> i" "i \<le> count t" and j: "0 \<le> j" "j \<le> count t"
      and k: "k < CHILDREN_COUNT" and l: "l < CHILDREN_COUNT" using sh(1) by auto
    have "i = j \<and> k = l"
      using a nth[OF i k] nth[OF j l] old_lt[of i k] old_lt[of j l] old_inj[of i j k l] i j cinv
      by (auto split: if_splits)
    then show "i = j" "k = l" by simp_all
  qed
qed

lemma walk_append:
  "walk t n (u @ v) = (case walk t n u of None \<Rightarrow> None | Some m \<Rightarrow> walk t m v)"
  by (induction u arbitrary: n) auto

lemma child_nth: "slot_ok idx \<Longrightarrow> child t i idx = children (pool t i) ! nat idx"
  by (simp add: child_def)

lemma pool_valid_child:
  assumes "pool_valid t" "in_pool t n" "slot_ok idx" "child t n idx \<noteq> INVALID_OFFSET"
  shows "in_pool t (child t n idx)"
proof -
  have "0 \<le> n \<and> n < count t" using assms by (simp add: in_pool_valid)
  moreover have "nat idx < CHILDREN_COUNT" using assms(3) by (simp add: slot_okD)
  ultimately have "children (pool t n) ! nat idx = INVALID_OFFSET \<or>
      (0 \<le> children (pool t n) ! nat idx \<and> children (pool t n) ! nat idx < count t)"
    using assms(1) unfolding pool_valid_def by blast
  then show ?thesis using assms by (auto simp: in_pool_valid child_def)
qed

lemma tree_inv_child_gt:
  assumes "tree_inv t" "in_pool t n" "slot_ok idx" "child t n idx \<noteq> INVALID_OFFSET"
  shows "n < child t n idx"
proof -
  have pv: "pool_valid t" using assms(1) by (simp add: tree_inv_def)
  have "0 \<le> n \<and> n < count t" using assms pv by (simp add: in_pool_valid)
  moreover have "nat idx < CHILDREN_COUNT" using assms(3) by (simp add: slot_okD)
  ultimately show ?thesis
    using assms(1,4) unfolding tree_inv_def child_def by blast
qed

lemma walk_in_pool:
  "pool_valid t \<Longrightarrow> in_pool t n \<Longrightarrow> walk t n w = Some x \<Longrightarrow> in_pool t x"
  by (induction w arbitrary: n) (auto split: if_splits intro: pool_valid_child)

lemma walk_mono:
  "tree_inv t \<Longrightarrow> walk t n w = Some x \<Longrightarrow> n \<le> x"
proof (induction w arbitrary: n)
  case Nil
  then show ?case by simp
next
  case (Cons c w)
  then have "n < child t n (slot_of c)" "walk t (child t n (slot_of c)) w = Some x"
    by (auto split: if_splits intro: tree_inv_child_gt)
  with Cons.IH[of "child t n (slot_of c)"] Cons.prems(1) show ?case by simp
qed

lemma walk_strict:
  assumes ti: "tree_inv t" and w: "walk t n w = Some x" and ne: "w \<noteq> []"
  shows "n < x"
proof (cases w)
  case Nil
  then show ?thesis using ne by simp
next
  case (Cons c w')
  from w Cons have c: "in_pool t n" "slot_ok (slot_of c)" "child t n (slot_of c) \<noteq> INVALID_OFFSET"
    and w': "walk t (child t n (slot_of c)) w' = Some x"
    by (auto split: if_splits)
  from tree_inv_child_gt[OF ti c] walk_mono[OF ti w'] show ?thesis by simp
qed

lemma ext_child:
  assumes "ext t t'" "pool_valid t" "in_pool t n" "slot_ok idx" "child t n idx \<noteq> INVALID_OFFSET"
  shows "child t' n idx = child t n idx"
proof -
  have "0 \<le> n \<and> n < count t \<and> nat idx < CHILDREN_COUNT"
    using assms by (simp add: in_pool_valid slot_okD)
  then show ?thesis using assms(1,5) unfolding ext_def child_def by blast
qed

lemma ext_in_pool:
  "ext t t' \<Longrightarrow> pool_valid t \<Longrightarrow> pool_valid t' \<Longrightarrow> in_pool t n \<Longrightarrow> in_pool t' n"
  by (auto simp: in_pool_valid ext_def)

lemma walk_ext:
  assumes "ext t t'" "pool_valid t" "pool_valid t'"
  shows "in_pool t n \<Longrightarrow> walk t n v = Some x \<Longrightarrow> walk t' n v = Some x"
proof (induction v arbitrary: n)
  case Nil
  then show ?case by simp
next
  case (Cons c v)
  from Cons.prems have c: "slot_ok (slot_of c)" "child t n (slot_of c) \<noteq> INVALID_OFFSET"
    and w: "walk t (child t n (slot_of c)) v = Some x"
    by (auto split: if_splits)
  have eq: "child t' n (slot_of c) = child t n (slot_of c)"
    using ext_child[OF assms(1,2) Cons.prems(1) c] .
  have "in_pool t (child t n (slot_of c))"
    using pool_valid_child[OF assms(2) Cons.prems(1) c] .
  from Cons.IH[OF this w] eq c ext_in_pool[OF assms(1,2,3) Cons.prems(1)]
  show ?case by simp
qed

lemma walk_ext_back:
  assumes "ext t t'" "pool_valid t" "tree_inv t'"
  shows "in_pool t n \<Longrightarrow> walk t' n v = Some x \<Longrightarrow> x < count t \<Longrightarrow> walk t n v = Some x"
proof (induction v arbitrary: n)
  case Nil
  then show ?case by simp
next
  case (Cons c v)
  from Cons.prems have c: "slot_ok (slot_of c)" "child t' n (slot_of c) \<noteq> INVALID_OFFSET"
    and w: "walk t' (child t' n (slot_of c)) v = Some x"
    by (auto split: if_splits)
  have le: "child t' n (slot_of c) \<le> x" using walk_mono[OF assms(3) w] .
  have n: "0 \<le> n \<and> n < count t \<and> nat (slot_of c) < CHILDREN_COUNT"
    using Cons.prems(1) assms(2) c by (simp add: in_pool_valid slot_okD)
  have eq: "child t n (slot_of c) = child t' n (slot_of c)"
  proof (cases "child t n (slot_of c) = INVALID_OFFSET")
    case True
    then have "child t' n (slot_of c) = INVALID_OFFSET \<or> count t \<le> child t' n (slot_of c)"
      using assms(1) n unfolding ext_def child_def by blast
    then show ?thesis using c le Cons.prems(3) by auto
  next
    case False
    then show ?thesis using ext_child[OF assms(1,2) Cons.prems(1) c(1)] by simp
  qed
  then have ne: "child t n (slot_of c) \<noteq> INVALID_OFFSET" using c by simp
  have "in_pool t (child t n (slot_of c))"
    using pool_valid_child[OF assms(2) Cons.prems(1) c(1) ne] .
  from Cons.IH[OF this] w eq Cons.prems(3) ne c Cons.prems(1)
  show ?case by simp
qed

lemma slot_of_inj: "slot_of c = slot_of d \<Longrightarrow> c = d"
  by (simp add: slot_of_def)

lemma walk_snoc:
  "walk t n (u @ [c]) = Some x \<longleftrightarrow>
     (\<exists>p. walk t n u = Some p \<and> in_pool t p \<and> slot_ok (slot_of c) \<and>
        child t p (slot_of c) \<noteq> INVALID_OFFSET \<and> child t p (slot_of c) = x)"
  by (auto simp: walk_append split: option.splits if_splits)

lemma walk_inj:
  assumes ti: "tree_inv t" and n: "in_pool t n"
  shows "walk t n v = Some x \<Longrightarrow> walk t n w = Some x \<Longrightarrow> v = w"
proof (induction v arbitrary: w x rule: rev_induct)
  case Nil
  then have "x = n" by simp
  show ?case
  proof (cases "w = []")
    case False
    then have "n < x" using walk_strict[OF ti Nil.prems(2)] by simp
    then show ?thesis using \<open>x = n\<close> by simp
  qed simp
next
  case (snoc c v)
  note prems = snoc.prems and IH = snoc.IH
  have pv: "pool_valid t" using ti by (simp add: tree_inv_def)
  from snoc.prems(1) obtain p where p: "walk t n v = Some p" "in_pool t p"
    "slot_ok (slot_of c)" "child t p (slot_of c) \<noteq> INVALID_OFFSET" "child t p (slot_of c) = x"
    unfolding walk_snoc by blast
  show ?case
  proof (cases w rule: rev_cases)
    case Nil
    then have "x = n" using prems(2) by simp
    moreover have "n < x" using walk_strict[OF ti prems(1)] by simp
    ultimately show ?thesis by simp
  next
    case (snoc w' d)
    from prems(2)[unfolded snoc walk_snoc] obtain q where q: "walk t n w' = Some q" "in_pool t q"
      "slot_ok (slot_of d)" "child t q (slot_of d) \<noteq> INVALID_OFFSET" "child t q (slot_of d) = x"
      by blast
    have pr: "0 \<le> p \<and> p < count t \<and> nat (slot_of c) < CHILDREN_COUNT"
      using p pv by (simp add: in_pool_valid slot_okD)
    have qr: "0 \<le> q \<and> q < count t \<and> nat (slot_of d) < CHILDREN_COUNT"
      using q pv by (simp add: in_pool_valid slot_okD)
    have "children (pool t p) ! nat (slot_of c) \<noteq> INVALID_OFFSET"
      "children (pool t p) ! nat (slot_of c) = children (pool t q) ! nat (slot_of d)"
      using p q by (simp_all add: child_def)
    with pr qr ti have "p = q \<and> nat (slot_of c) = nat (slot_of d)"
      unfolding tree_inv_def by blast
    then have "p = q" "c = d" using p(3) q(3) by (auto simp: slot_ok_def intro: slot_of_inj)
    with IH[OF p(1)] q(1) snoc show ?thesis by simp
  qed
qed


lemma tree_inv_same_links:
  assumes "tree_inv t" "pool_valid t'" "count t' = count t"
    "\<And>i. children (pool t' i) = children (pool t i)"
  shows "tree_inv t'"
  using assms(1,2) unfolding tree_inv_def assms(3) assms(4) by blast

lemma ext_same_links:
  assumes "count t' = count t" "\<And>i. children (pool t' i) = children (pool t i)"
  shows "ext t t'"
  unfolding ext_def assms(1) assms(2) by simp

lemma set_terminal_props:
  assumes ti: "tree_inv t" and r: "in_pool t r"
  defines "t' \<equiv> t\<lparr>pool := (pool t)(r := (pool t r)\<lparr>terminal := True\<rparr>)\<rparr>"
  shows "tree_inv t'" "ext t t'" "terminals t' = insert r (terminals t)"
    "pool_cells t' = pool_cells t" "capacity t' = capacity t" "count t' = count t"
proof -
  have ch: "\<And>i. children (pool t' i) = children (pool t i)"
    by (simp add: t'_def)
  have pv0: "pool_valid t" using ti by (simp add: tree_inv_def)
  have pv: "pool_valid t'"
    unfolding pool_valid_def ch using pv0[unfolded pool_valid_def] by (simp add: t'_def)
  show "tree_inv t'"
    by (rule tree_inv_same_links[OF ti pv _ ch]) (simp add: t'_def)
  show "ext t t'"
    by (rule ext_same_links[OF _ ch]) (simp add: t'_def)
  show "terminals t' = insert r (terminals t)"
    using r by (auto simp: terminals_def in_pool_def t'_def)
  show "pool_cells t' = pool_cells t" "capacity t' = capacity t" "count t' = count t"
    by (simp_all add: t'_def)
qed

lemma set_child_terminals:
  assumes al: "alloc_node grant t = Inr (t1, tmp)" and ne: "tmp \<noteq> INVALID_OFFSET"
    and pv: "pool_valid t" and r: "in_pool t root_idx" and idx: "slot_ok idx"
  shows "terminals (set_child t1 root_idx idx tmp) = terminals t"
proof -
  note sh = set_child_shape[OF al ne pv r idx]
  have pv2: "pool_valid (set_child t1 root_idx idx tmp)"
    by (rule set_child_valid[OF al ne pv r idx])
  have "\<And>x. 0 \<le> x \<Longrightarrow> x < count t \<Longrightarrow>
      terminal (pool (set_child t1 root_idx idx tmp) x) = terminal (pool t x)"
    using sh(6) sh(7) by (metis less_irrefl)
  moreover have "\<not> terminal (pool (set_child t1 root_idx idx tmp) (count t))"
    using sh(4) by (simp add: bare_def)
  ultimately have "\<And>x. (0 \<le> x \<and> x < count t + 1 \<and> terminal (pool (set_child t1 root_idx idx tmp) x)) =
      (0 \<le> x \<and> x < count t \<and> terminal (pool t x))"
    by (smt (verit))
  then show ?thesis
    unfolding terminals_def in_pool_valid[OF pv] in_pool_valid[OF pv2] sh(1)
    by simp
qed

lemma insert_text_spec:
  assumes "tree_inv t" "in_pool t r" "insert_text grant t r w = Inr (t', ok)"
  shows "tree_inv t' \<and> ext t t' \<and>
         (pool_cells t = capacity t \<and> ok \<longrightarrow> pool_cells t' = capacity t') \<and>
         (if ok then \<exists>m. walk t' r w = Some m \<and> terminals t' = insert m (terminals t)
          else terminals t' = terminals t)"
  using assms
proof (induction w arbitrary: t r)
  case Nil
  then have t': "t' = t\<lparr>pool := (pool t)(r := (pool t r)\<lparr>terminal := True\<rparr>)\<rparr>" and ok: "ok"
    by (auto split: if_splits)
  from set_terminal_props[OF Nil.prems(1,2)] show ?case
    unfolding t' using ok by simp
next
  case (Cons c w)
  define idx where "idx = slot_of c"
  have pv: "pool_valid t" using Cons.prems(1) by (simp add: tree_inv_def)
  from Cons.prems(3) have idx: "slot_ok idx"
    by (auto simp: idx_def Let_def split: if_splits)
  note r = Cons.prems(2)
  show ?case
  proof (cases "child t r idx = INVALID_OFFSET")
    case absent: True
    from Cons.prems(3) absent r idx obtain t1 tmp where al: "alloc_node grant t = Inr (t1, tmp)"
      by (auto simp: idx_def[symmetric] Let_def split: sum.splits)
    show ?thesis
    proof (cases "tmp = INVALID_OFFSET")
      case True
      with Cons.prems(3) absent r idx al have t': "t' = t1" "\<not> ok"
        by (auto simp: idx_def[symmetric] Let_def)
      from alloc_node_fail_valid[OF al[unfolded True] pv]
      have f: "pool_valid t1" "pool t1 = pool t" "count t1 = count t" by auto
      have "tree_inv t1"
        by (rule tree_inv_same_links[OF Cons.prems(1) f(1) f(3)]) (simp add: f(2))
      moreover have "ext t t1"
        by (rule ext_same_links[OF f(3)]) (simp add: f(2))
      moreover have "terminals t1 = terminals t"
        unfolding terminals_def in_pool_valid[OF pv] in_pool_valid[OF f(1)] by (simp add: f)
      ultimately show ?thesis using t' by simp
    next
      case False
      define t2 where "t2 = set_child t1 r idx tmp"
      have ins: "insert_text grant t2 (child t2 r idx) w = Inr (t', ok)"
        using Cons.prems(3) absent r idx al False
        by (auto simp: idx_def[symmetric] Let_def t2_def)
      have ti2: "tree_inv t2" unfolding t2_def
        by (rule set_child_tree[OF al False Cons.prems(1) r idx absent])
      have pv2: "pool_valid t2" using ti2 by (simp add: tree_inv_def)
      have ext2: "ext t t2" unfolding t2_def
        by (rule set_child_ext[OF al False pv r idx absent])
      have ch2: "child t2 r idx = count t" unfolding t2_def
        by (rule set_child_shape(8)[OF al False pv r idx])
      have cnt2: "count t2 = count t + 1" unfolding t2_def
        by (rule set_child_shape(1)[OF al False pv r idx])
      have in2: "in_pool t2 (child t2 r idx)"
        using ch2 cnt2 pv pv2 by (simp add: in_pool_valid pool_valid_def)
      have term2: "terminals t2 = terminals t" unfolding t2_def
        by (rule set_child_terminals[OF al False pv r idx])
      have cap2: "pool_cells t = capacity t \<longrightarrow> pool_cells t2 = capacity t2"
        using alloc_node_ok_shape[OF al False pv] set_child_shape(2,3)[OF al False pv r idx]
        by (simp add: t2_def)
      note IH = Cons.IH[OF ti2 in2 ins]
      have pv': "pool_valid t'" using IH by (simp add: tree_inv_def)
      have r2: "in_pool t2 r" using ext_in_pool[OF ext2 pv pv2 r] .
      have r': "in_pool t' r" using ext_in_pool[OF _ pv2 pv' r2] IH by simp
      have ne2: "child t2 r idx \<noteq> INVALID_OFFSET"
        using ch2 pv by (auto simp: pool_valid_def INVALID_OFFSET_def)
      have ch': "child t' r idx = child t2 r idx"
        using ext_child[OF _ pv2 r2 idx ne2] IH by simp
      have wk: "walk t' r (c # w) = walk t' (child t2 r idx) w"
        using r' idx ch' ne2 by (simp add: idx_def)
      have e: "ext t t'" using ext_trans[OF ext2] IH by simp
      have ti': "tree_inv t'" using IH by simp
      have cap': "pool_cells t = capacity t \<and> ok \<longrightarrow> pool_cells t' = capacity t'"
        using IH cap2 by simp
      show ?thesis
      proof (cases ok)
        case True
        with IH obtain m where "walk t' (child t2 r idx) w = Some m"
          "terminals t' = insert m (terminals t2)" by auto
        then have "\<exists>m. walk t' r (c # w) = Some m \<and> terminals t' = insert m (terminals t)"
          unfolding wk term2 by blast
        with ti' e cap' True show ?thesis by simp
      next
        case False
        with IH have "terminals t' = terminals t" unfolding term2 by simp
        with ti' e cap' False show ?thesis by simp
      qed
    qed
  next
    case present: False
    have ins: "insert_text grant t (child t r idx) w = Inr (t', ok)"
      using Cons.prems(3) present r idx by (auto simp: idx_def[symmetric] Let_def)
    have inc: "in_pool t (child t r idx)"
      by (rule pool_valid_child[OF pv r idx present])
    note IH = Cons.IH[OF Cons.prems(1) inc ins]
    have pv': "pool_valid t'" using IH by (simp add: tree_inv_def)
    have r': "in_pool t' r" using ext_in_pool[OF _ pv pv' r] IH by simp
    have ch': "child t' r idx = child t r idx"
      using ext_child[OF _ pv r idx present] IH by simp
    have wk: "walk t' r (c # w) = walk t' (child t r idx) w"
      using r' idx ch' present by (simp add: idx_def)
    show ?thesis
    proof (cases ok)
      case True
      with IH obtain m where "walk t' (child t r idx) w = Some m"
        "terminals t' = insert m (terminals t)" by auto
      then have "\<exists>m. walk t' r (c # w) = Some m \<and> terminals t' = insert m (terminals t)"
        unfolding wk by blast
      with IH True show ?thesis by simp
    next
      case False
      with IH show ?thesis by simp
    qed
  qed
qed

lemma print_suggestions_Suc:
  "print_suggestions (Suc fuel) t root_idx (b, out) =
     (if \<not> in_pool t root_idx then Some (Inl Out_Of_Bounds)
      else fold (ps_step fuel t root_idx) [0..<CHILDREN_COUNT]
             (Some (Inr (b, if terminal (pool t root_idx) then out @ [ac_contents b] else out))))"
proof -
  have "ps_step fuel t root_idx = (\<lambda>i r.
               case r of
                 Some (Inr (b1, out1)) \<Rightarrow>
                   if child t root_idx (int i) \<noteq> INVALID_OFFSET then
                     (case ac_buffer_push b1 (label_of i) of
                        Inl f \<Rightarrow> Some (Inl f)
                      | Inr b2 \<Rightarrow>
                          (case print_suggestions fuel t (child t root_idx (int i)) (b2, out1) of
                             Some (Inr (b3, out3)) \<Rightarrow> Some (Inr (ac_buffer_pop b3, out3))
                           | r' \<Rightarrow> r'))
                   else r
               | _ \<Rightarrow> r)"
    by (intro ext) (simp add: ps_step_def)
  then show ?thesis by simp
qed

subsection \<open>buffer\<close>

lemma ac_buffer_push_Inr:
  "ac_buffer_sz b < AC_BUFFER_CAP \<Longrightarrow>
     \<exists>b1. ac_buffer_push b ch = Inr b1 \<and> ac_buffer_sz b1 = ac_buffer_sz b + 1 \<and>
          ac_contents b1 = ac_contents b @ [ch]"
  by (simp add: ac_buffer_push_def ac_contents_def)

lemma ac_buffer_push_full:
  "\<not> ac_buffer_sz b < AC_BUFFER_CAP \<Longrightarrow> ac_buffer_push b ch = Inl Out_Of_Bounds"
  by (simp add: ac_buffer_push_def)

lemma ac_buffer_pop_contents:
  assumes "ac_buffer_sz b3 = s + 1" "ac_contents b3 = p @ [ch]"
  shows "ac_buffer_sz (ac_buffer_pop b3) = s \<and> ac_contents (ac_buffer_pop b3) = p"
proof -
  have "ac_contents (ac_buffer_pop b3) = map (ac_buffer b3) [0..<s]"
    using assms(1) by (simp add: ac_buffer_pop_def ac_contents_def)
  also have "\<dots> = butlast (ac_contents b3)"
    using assms(1) by (simp add: ac_contents_def)
  finally show ?thesis using assms by (simp add: ac_buffer_pop_def)
qed

subsection \<open>labels\<close>

lemma slot_of_label: "i < CHILDREN_COUNT \<Longrightarrow> slot_of (label_of i) = int i"
  by (simp add: slot_of_def label_of_def CHILDREN_COUNT_def ASCII_OFFSET_def)

lemma label_of_slot: "slot_ok (slot_of c) \<Longrightarrow> label_of (nat (slot_of c)) = c"
  by (simp add: slot_of_def label_of_def slot_ok_def ASCII_OFFSET_def)

lemma label_of_nat: "label_of i = char_of (i + 32)"
proof -
  have "int i + 32 = int (i + 32)" by simp
  then show ?thesis unfolding label_of_def ASCII_OFFSET_def by (simp only: char_of_nat)
qed

lemma label_less: "i < j \<Longrightarrow> j < CHILDREN_COUNT \<Longrightarrow> label_of i < label_of j"
  by (simp add: label_of_nat CHILDREN_COUNT_def less_char_def)

lemma lex_prefix_less: "p < p @ a # (u :: string)"
  by (induction p) simp_all

lemma lex_branch_less: "a < b \<Longrightarrow> p @ a # u < p @ b # (v :: string)"
  by (induction p) simp_all


subsection \<open>accepted words\<close>

lemma accepts_Nil: "accepts t n [] \<longleftrightarrow> n \<in> terminals t"
  by (simp add: accepts_def)

lemma accepts_Cons:
  "accepts t n (c # v) \<longleftrightarrow>
     in_pool t n \<and> slot_ok (slot_of c) \<and> child t n (slot_of c) \<noteq> INVALID_OFFSET \<and>
     accepts t (child t n (slot_of c)) v"
  by (simp add: accepts_def)

lemma accepts_label:
  assumes "in_pool t n" "i < CHILDREN_COUNT"
  shows "accepts t n (label_of i # v) \<longleftrightarrow>
     child t n (int i) \<noteq> INVALID_OFFSET \<and> accepts t (child t n (int i)) v"
  using assms by (simp add: accepts_Cons slot_of_label slot_ok_def)

lemma accepts_set:
  assumes n: "in_pool t n"
  shows "{p @ v | v. accepts t n v} =
     (if terminal (pool t n) then {p} else {}) \<union>
     {p @ label_of i # v | i v. i < CHILDREN_COUNT \<and> child t n (int i) \<noteq> INVALID_OFFSET \<and>
        accepts t (child t n (int i)) v}"
    (is "?L = ?T \<union> ?R")
proof (intro set_eqI iffI)
  fix x assume "x \<in> ?L"
  then obtain v where v: "x = p @ v" "accepts t n v" by blast
  show "x \<in> ?T \<union> ?R"
  proof (cases v)
    case Nil
    then show ?thesis using v by (simp add: accepts_Nil terminals_def)
  next
    case (Cons c v')
    with v(2) have c: "slot_ok (slot_of c)" "child t n (slot_of c) \<noteq> INVALID_OFFSET"
      "accepts t (child t n (slot_of c)) v'"
      by (simp_all add: accepts_Cons)
    let ?i = "nat (slot_of c)"
    have "?i < CHILDREN_COUNT" "int ?i = slot_of c" "label_of ?i = c"
      using c(1) by (simp_all add: slot_okD label_of_slot)
    with c v(1) Cons have "x \<in> ?R" by force
    then show ?thesis by simp
  qed
next
  fix x assume "x \<in> ?T \<union> ?R"
  then consider "x \<in> ?T" | "x \<in> ?R" by blast
  then show "x \<in> ?L"
  proof cases
    case 1
    then have "x = p @ []" "accepts t n []"
      using n by (auto simp: accepts_Nil terminals_def split: if_splits)
    then show ?thesis by blast
  next
    case 2
    then obtain i v where iv: "x = p @ label_of i # v" "i < CHILDREN_COUNT"
      "child t n (int i) \<noteq> INVALID_OFFSET" "accepts t (child t n (int i)) v" by blast
    then have "accepts t n (label_of i # v)" using accepts_label[OF n iv(2)] by simp
    with iv(1) show ?thesis by blast
  qed
qed

lemma walk_label:
  assumes "in_pool t n" "i < CHILDREN_COUNT" "child t n (int i) \<noteq> INVALID_OFFSET"
  shows "walk t n (label_of i # v) = walk t (child t n (int i)) v"
  using assms by (simp add: slot_of_label slot_ok_def)

lemma fits_child:
  assumes "fits t n s" "in_pool t n" "i < CHILDREN_COUNT" "child t n (int i) \<noteq> INVALID_OFFSET"
  shows "s < AC_BUFFER_CAP" "fits t (child t n (int i)) (s + 1)"
proof -
  have "walk t n (label_of i # []) = Some (child t n (int i))"
    using walk_label[OF assms(2,3,4)] by simp
  then have "s + length [label_of i] \<le> AC_BUFFER_CAP"
    using assms(1) unfolding fits_def by blast
  then show "s < AC_BUFFER_CAP" by simp
  show "fits t (child t n (int i)) (s + 1)"
    unfolding fits_def
  proof (intro allI impI)
    fix v x assume "walk t (child t n (int i)) v = Some x"
    then have "walk t n (label_of i # v) = Some x"
      using walk_label[OF assms(2,3,4)] by simp
    then have "s + length (label_of i # v) \<le> AC_BUFFER_CAP"
      using assms(1) unfolding fits_def by blast
    then show "s + 1 + length v \<le> AC_BUFFER_CAP" by simp
  qed
qed


subsection \<open>traversal\<close>

lemma ps_fold:
  assumes ti: "tree_inv t" and n: "in_pool t n" and fit: "fits t n (ac_buffer_sz b)"
    and IH: "\<And>c b2 out2. in_pool t c \<Longrightarrow> n < c \<Longrightarrow> fits t c (ac_buffer_sz b2) \<Longrightarrow>
      \<exists>b' ws. print_suggestions fuel t c (b2, out2) = Some (Inr (b', out2 @ ws)) \<and>
        ac_buffer_sz b' = ac_buffer_sz b2 \<and> ac_contents b' = ac_contents b2 \<and>
        sorted_wrt (<) ws \<and> set ws = {ac_contents b2 @ v | v. accepts t c v}"
  shows "j \<le> CHILDREN_COUNT \<Longrightarrow>
    \<exists>bj ws. fold (ps_step fuel t n) [0..<j] (Some (Inr (b, out0))) = Some (Inr (bj, out0 @ ws)) \<and>
      ac_buffer_sz bj = ac_buffer_sz b \<and> ac_contents bj = ac_contents b \<and>
      sorted_wrt (<) ws \<and>
      set ws = {ac_contents b @ label_of i # v | i v.
                  i < j \<and> child t n (int i) \<noteq> INVALID_OFFSET \<and> accepts t (child t n (int i)) v}"
proof (induction j)
  case 0
  show ?case by simp
next
  case (Suc j)
  then have j: "j < CHILDREN_COUNT" by simp
  from Suc obtain bj ws where
    f: "fold (ps_step fuel t n) [0..<j] (Some (Inr (b, out0))) = Some (Inr (bj, out0 @ ws))"
    and sz: "ac_buffer_sz bj = ac_buffer_sz b" and con: "ac_contents bj = ac_contents b"
    and so: "sorted_wrt (<) ws"
    and se: "set ws = {ac_contents b @ label_of i # v | i v.
                  i < j \<and> child t n (int i) \<noteq> INVALID_OFFSET \<and> accepts t (child t n (int i)) v}"
    by auto
  have fold_eq: "fold (ps_step fuel t n) [0..<Suc j] (Some (Inr (b, out0))) =
      ps_step fuel t n j (Some (Inr (bj, out0 @ ws)))"
    using f by simp
  show ?case
  proof (cases "child t n (int j) = INVALID_OFFSET")
    case True
    have "{ac_contents b @ label_of i # v | i v.
                  i < Suc j \<and> child t n (int i) \<noteq> INVALID_OFFSET \<and> accepts t (child t n (int i)) v} =
          {ac_contents b @ label_of i # v | i v.
                  i < j \<and> child t n (int i) \<noteq> INVALID_OFFSET \<and> accepts t (child t n (int i)) v}"
      using True less_Suc_eq by auto
    moreover have "ps_step fuel t n j (Some (Inr (bj, out0 @ ws))) = Some (Inr (bj, out0 @ ws))"
      using True by (simp add: ps_step_def)
    ultimately show ?thesis using fold_eq sz con so se by auto
  next
    case False
    let ?c = "child t n (int j)"
    have pv: "pool_valid t" using ti by (simp add: tree_inv_def)
    have sj: "slot_ok (int j)" using j by (simp add: slot_ok_def)
    have c_in: "in_pool t ?c" by (rule pool_valid_child[OF pv n sj False])
    have c_gt: "n < ?c" by (rule tree_inv_child_gt[OF ti n sj False])
    note fc = fits_child[OF fit n j False]
    from ac_buffer_push_Inr[of bj "label_of j"] fc(1) sz obtain b2 where
      b2: "ac_buffer_push bj (label_of j) = Inr b2" "ac_buffer_sz b2 = ac_buffer_sz b + 1"
        "ac_contents b2 = ac_contents b @ [label_of j]"
      using con by auto
    from IH[OF c_in c_gt, of b2 "out0 @ ws"] fc(2) b2(2) obtain b3 ws' where
      r: "print_suggestions fuel t ?c (b2, out0 @ ws) = Some (Inr (b3, (out0 @ ws) @ ws'))"
      and sz3: "ac_buffer_sz b3 = ac_buffer_sz b2" and con3: "ac_contents b3 = ac_contents b2"
      and so': "sorted_wrt (<) ws'"
      and se': "set ws' = {ac_contents b2 @ v | v. accepts t ?c v}"
      by auto
    have pop: "ac_buffer_sz (ac_buffer_pop b3) = ac_buffer_sz b \<and>
               ac_contents (ac_buffer_pop b3) = ac_contents b"
      by (rule ac_buffer_pop_contents) (simp_all add: sz3 con3 b2)
    have step: "ps_step fuel t n j (Some (Inr (bj, out0 @ ws))) =
        Some (Inr (ac_buffer_pop b3, out0 @ (ws @ ws')))"
      using False b2(1) r by (simp add: ps_step_def)
    have se2: "set ws' = {ac_contents b @ label_of j # v | v. accepts t ?c v}"
      unfolding se' b2(3) by simp
    have lt: "\<forall>x\<in>set ws. \<forall>y\<in>set ws'. x < y"
    proof (intro ballI)
      fix x y assume "x \<in> set ws" "y \<in> set ws'"
      then obtain i v v' where "x = ac_contents b @ label_of i # v" "i < j"
        "y = ac_contents b @ label_of j # v'"
        unfolding se se2 by blast
      then show "x < y" using label_less[OF _ j] lex_branch_less by simp
    qed
    have sorted: "sorted_wrt (<) (ws @ ws')"
      using so so' lt by (simp add: sorted_wrt_append)
    have "set (ws @ ws') = {ac_contents b @ label_of i # v | i v.
                  i < Suc j \<and> child t n (int i) \<noteq> INVALID_OFFSET \<and> accepts t (child t n (int i)) v}"
      (is "_ = ?S")
    proof (intro set_eqI iffI)
      fix x assume "x \<in> set (ws @ ws')"
      then consider "x \<in> set ws" | "x \<in> set ws'" by auto
      then show "x \<in> ?S"
      proof cases
        case 1
        then obtain i v where "x = ac_contents b @ label_of i # v" "i < j"
          "child t n (int i) \<noteq> INVALID_OFFSET" "accepts t (child t n (int i)) v"
          unfolding se by blast
        then show ?thesis using less_Suc_eq by blast
      next
        case 2
        then obtain v where "x = ac_contents b @ label_of j # v" "accepts t ?c v"
          unfolding se2 by blast
        then show ?thesis using False by blast
      qed
    next
      fix x assume "x \<in> ?S"
      then obtain i v where x: "x = ac_contents b @ label_of i # v" "i < Suc j"
          "child t n (int i) \<noteq> INVALID_OFFSET" "accepts t (child t n (int i)) v"
        by blast
      show "x \<in> set (ws @ ws')"
      proof (cases "i = j")
        case True
        then have "x \<in> set ws'" unfolding se2 using x by blast
        then show ?thesis by simp
      next
        case False
        then have "i < j" using x(2) by simp
        then have "x \<in> set ws" unfolding se using x by blast
        then show ?thesis by simp
      qed
    qed
    with fold_eq step pop sorted show ?thesis by auto
  qed
qed

lemma ps_correct:
  assumes ti: "tree_inv t"
  shows "in_pool t n \<Longrightarrow> nat (count t - n) \<le> fuel \<Longrightarrow> fits t n (ac_buffer_sz b) \<Longrightarrow>
    \<exists>b' ws. print_suggestions fuel t n (b, out) = Some (Inr (b', out @ ws)) \<and>
      ac_buffer_sz b' = ac_buffer_sz b \<and> ac_contents b' = ac_contents b \<and>
      sorted_wrt (<) ws \<and> set ws = {ac_contents b @ v | v. accepts t n v}"
proof (induction fuel arbitrary: n b out)
  case 0
  then show ?case by (simp add: in_pool_def)
next
  case (Suc fuel)
  have IH: "\<And>c b2 out2. in_pool t c \<Longrightarrow> n < c \<Longrightarrow> fits t c (ac_buffer_sz b2) \<Longrightarrow>
      \<exists>b' ws. print_suggestions fuel t c (b2, out2) = Some (Inr (b', out2 @ ws)) \<and>
        ac_buffer_sz b' = ac_buffer_sz b2 \<and> ac_contents b' = ac_contents b2 \<and>
        sorted_wrt (<) ws \<and> set ws = {ac_contents b2 @ v | v. accepts t c v}"
  proof -
    fix c and b2 :: ac and out2 :: "string list"
    assume c: "in_pool t c" "n < c" "fits t c (ac_buffer_sz b2)"
    have "nat (count t - c) \<le> fuel" using Suc.prems(2) c by (simp add: in_pool_def)
    from Suc.IH[OF c(1) this c(3)]
    show "\<exists>b' ws. print_suggestions fuel t c (b2, out2) = Some (Inr (b', out2 @ ws)) \<and>
        ac_buffer_sz b' = ac_buffer_sz b2 \<and> ac_contents b' = ac_contents b2 \<and>
        sorted_wrt (<) ws \<and> set ws = {ac_contents b2 @ v | v. accepts t c v}" .
  qed
  let ?out1 = "if terminal (pool t n) then out @ [ac_contents b] else out"
  from ps_fold[OF ti Suc.prems(1) Suc.prems(3) IH, of CHILDREN_COUNT ?out1]
  obtain bj ws where
    f: "fold (ps_step fuel t n) [0..<CHILDREN_COUNT] (Some (Inr (b, ?out1))) = Some (Inr (bj, ?out1 @ ws))"
    and sz: "ac_buffer_sz bj = ac_buffer_sz b" and con: "ac_contents bj = ac_contents b"
    and so: "sorted_wrt (<) ws"
    and se: "set ws = {ac_contents b @ label_of i # v | i v.
        i < CHILDREN_COUNT \<and> child t n (int i) \<noteq> INVALID_OFFSET \<and> accepts t (child t n (int i)) v}"
    by auto
  let ?ws = "(if terminal (pool t n) then [ac_contents b] else []) @ ws"
  have res: "print_suggestions (Suc fuel) t n (b, out) = Some (Inr (bj, out @ ?ws))"
    unfolding print_suggestions_Suc using f Suc.prems(1) by (cases "terminal (pool t n)") simp_all
  have "\<forall>y\<in>set ws. ac_contents b < y"
    unfolding se using lex_prefix_less by blast
  then have sorted: "sorted_wrt (<) ?ws" using so by simp
  have "set ?ws = (if terminal (pool t n) then {ac_contents b} else {}) \<union> set ws"
    by simp
  then have "set ?ws = {ac_contents b @ v | v. accepts t n v}"
    unfolding accepts_set[OF Suc.prems(1)] se .
  with res sz con sorted show ?case by blast
qed

lemma insert_accepts:
  assumes ti: "tree_inv t" and r: "in_pool t r" and ins: "insert_text grant t r w = Inr (t', True)"
  shows "accepts t' r v \<longleftrightarrow> v = w \<or> accepts t r v"
proof -
  from insert_text_spec[OF ti r ins] obtain m where
    ti': "tree_inv t'" and e: "ext t t'" and m: "walk t' r w = Some m"
    and te: "terminals t' = insert m (terminals t)" by auto
  have pv: "pool_valid t" using ti by (simp add: tree_inv_def)
  have pv': "pool_valid t'" using ti' by (simp add: tree_inv_def)
  have r': "in_pool t' r" by (rule ext_in_pool[OF e pv pv' r])
  show ?thesis
  proof
    assume "accepts t' r v"
    then obtain x where x: "walk t' r v = Some x" "x \<in> terminals t'"
      unfolding accepts_def by blast
    show "v = w \<or> accepts t r v"
    proof (cases "x = m")
      case True
      then show ?thesis using walk_inj[OF ti' r' x(1)] m by simp
    next
      case False
      then have xt: "x \<in> terminals t" using x(2) te by simp
      then have "x < count t" by (simp add: terminals_def in_pool_def)
      from walk_ext_back[OF e pv ti' r x(1) this] xt show ?thesis
        unfolding accepts_def by blast
    qed
  next
    assume "v = w \<or> accepts t r v"
    then show "accepts t' r v"
    proof
      assume "v = w"
      then show ?thesis using m te unfolding accepts_def by simp
    next
      assume "accepts t r v"
      then obtain x where x: "walk t r v = Some x" "x \<in> terminals t"
        unfolding accepts_def by blast
      from walk_ext[OF e pv pv' r x(1)] x(2) te show ?thesis
        unfolding accepts_def by simp
    qed
  qed
qed

lemma walk_start_in_pool:
  "walk t n u = Some r \<Longrightarrow> in_pool t r \<Longrightarrow> in_pool t n"
  by (cases u) (auto split: if_splits)

lemma insert_new_paths:
  assumes "tree_inv t" "in_pool t r" "insert_text grant t r w = Inr (t', ok)"
    "walk t n u = Some r" "walk t' n v = Some x" "count t \<le> x"
  shows "prefix v (u @ w)"
  using assms
proof (induction w arbitrary: t r u)
  case Nil
  have pv: "pool_valid t" using Nil.prems(1) by (simp add: tree_inv_def)
  from insert_text_spec[OF Nil.prems(1,2,3)] have ti': "tree_inv t'" and e: "ext t t'" by auto
  have pv': "pool_valid t'" using ti' by (simp add: tree_inv_def)
  have n: "in_pool t n" using walk_start_in_pool[OF Nil.prems(4) Nil.prems(2)] .
  have "in_pool t' x" using walk_in_pool[OF pv' ext_in_pool[OF e pv pv' n] Nil.prems(5)] .
  moreover have "count t' = count t" using Nil.prems(2,3) by (auto split: if_splits)
  ultimately show ?case using Nil.prems(6) by (simp add: in_pool_def)
next
  case (Cons c w)
  define idx where "idx = slot_of c"
  note ti = Cons.prems(1) and r = Cons.prems(2)
  have pv: "pool_valid t" using ti by (simp add: tree_inv_def)
  have n: "in_pool t n" using walk_start_in_pool[OF Cons.prems(4) r] .
  from Cons.prems(3) have idx: "slot_ok idx"
    by (auto simp: idx_def Let_def split: if_splits)
  show ?case
  proof (cases "child t r idx = INVALID_OFFSET")
    case absent: True
    from Cons.prems(3) absent r idx obtain t1 tmp where al: "alloc_node grant t = Inr (t1, tmp)"
      by (auto simp: idx_def[symmetric] Let_def split: sum.splits)
    show ?thesis
    proof (cases "tmp = INVALID_OFFSET")
      case True
      with Cons.prems(3) absent r idx al have t': "t' = t1"
        by (auto simp: idx_def[symmetric] Let_def)
      from alloc_node_fail_valid[OF al[unfolded True] pv]
      have f: "pool_valid t1" "pool t1 = pool t" "count t1 = count t" by auto
      have "in_pool t' n" using n f t' by (simp add: in_pool_valid pv)
      from walk_in_pool[OF _ this Cons.prems(5)] f t' have "in_pool t' x" by simp
      then show ?thesis using Cons.prems(6) f t' by (simp add: in_pool_def)
    next
      case False
      define t2 where "t2 = set_child t1 r idx tmp"
      have ins: "insert_text grant t2 (child t2 r idx) w = Inr (t', ok)"
        using Cons.prems(3) absent r idx al False
        by (auto simp: idx_def[symmetric] Let_def t2_def)
      have ti2: "tree_inv t2" unfolding t2_def
        by (rule set_child_tree[OF al False ti r idx absent])
      have pv2: "pool_valid t2" using ti2 by (simp add: tree_inv_def)
      have ext2: "ext t t2" unfolding t2_def
        by (rule set_child_ext[OF al False pv r idx absent])
      have ch2: "child t2 r idx = count t" unfolding t2_def
        by (rule set_child_shape(8)[OF al False pv r idx])
      have cnt2: "count t2 = count t + 1" unfolding t2_def
        by (rule set_child_shape(1)[OF al False pv r idx])
      have in2: "in_pool t2 (child t2 r idx)"
        using ch2 cnt2 pv pv2 by (simp add: in_pool_valid pool_valid_def)
      have ne2: "child t2 r idx \<noteq> INVALID_OFFSET"
        using ch2 pv by (auto simp: pool_valid_def INVALID_OFFSET_def)
      have r2: "in_pool t2 r" using ext_in_pool[OF ext2 pv pv2 r] .
      have w2: "walk t2 n u = Some r" using walk_ext[OF ext2 pv pv2 n Cons.prems(4)] .
      have w2c: "walk t2 n (u @ [c]) = Some (child t2 r idx)"
        unfolding walk_snoc using w2 r2 idx ne2 by (simp add: idx_def)
      show ?thesis
      proof (cases "count t2 \<le> x")
        case True
        from Cons.IH[OF ti2 in2 ins w2c Cons.prems(5) True] show ?thesis by simp
      next
        case False
        then have xe: "x = count t" using Cons.prems(6) cnt2 by simp
        from insert_text_spec[OF ti2 in2 ins] have ti': "tree_inv t'" and e': "ext t2 t'" by auto
        have pv': "pool_valid t'" using ti' by (simp add: tree_inv_def)
        have n2: "in_pool t2 n" using ext_in_pool[OF ext2 pv pv2 n] .
        have n': "in_pool t' n" using ext_in_pool[OF e' pv2 pv' n2] .
        have "walk t' n (u @ [c]) = Some x"
          using walk_ext[OF e' pv2 pv' n2 w2c] ch2 xe by simp
        from walk_inj[OF ti' n' Cons.prems(5) this] show ?thesis by simp
      qed
    qed
  next
    case present: False
    have ins: "insert_text grant t (child t r idx) w = Inr (t', ok)"
      using Cons.prems(3) present r idx by (auto simp: idx_def[symmetric] Let_def)
    have inc: "in_pool t (child t r idx)"
      by (rule pool_valid_child[OF pv r idx present])
    have wc: "walk t n (u @ [c]) = Some (child t r idx)"
      unfolding walk_snoc using Cons.prems(4) r idx present by (simp add: idx_def)
    from Cons.IH[OF ti inc ins wc Cons.prems(5,6)] show ?thesis by simp
  qed
qed


lemma populate_spec:
  assumes "tree_inv t" "in_pool t r" "populate_trie grant t r ws = Inr (t', True)" "paths_in t r W"
  shows "tree_inv t' \<and> in_pool t' r \<and> (\<forall>v. accepts t' r v \<longleftrightarrow> v \<in> set ws \<or> accepts t r v) \<and>
         paths_in t' r (W \<union> set ws) \<and> (pool_cells t = capacity t \<longrightarrow> pool_cells t' = capacity t')"
  using assms
proof (induction ws arbitrary: t W)
  case Nil
  then show ?case by simp
next
  case (Cons l ls)
  note ti = Cons.prems(1) and r = Cons.prems(2)
  have pv: "pool_valid t" using ti by (simp add: tree_inv_def)
  from Cons.prems(3) obtain t1 where ins: "insert_text grant t r l = Inr (t1, True)"
    and pop: "populate_trie grant t1 r ls = Inr (t', True)"
    by (auto split: sum.splits if_splits)
  from insert_text_spec[OF ti r ins] have ti1: "tree_inv t1" and e: "ext t t1"
    and cap1: "pool_cells t = capacity t \<longrightarrow> pool_cells t1 = capacity t1" by auto
  have pv1: "pool_valid t1" using ti1 by (simp add: tree_inv_def)
  have r1: "in_pool t1 r" by (rule ext_in_pool[OF e pv pv1 r])
  have p1: "paths_in t1 r (W \<union> {l})"
    unfolding paths_in_def
  proof (intro allI impI)
    fix v x assume w: "walk t1 r v = Some x"
    show "v = [] \<or> (\<exists>w\<in>W \<union> {l}. prefix v w)"
    proof (cases "x < count t")
      case True
      from walk_ext_back[OF e pv ti1 r w True] Cons.prems(4) show ?thesis
        unfolding paths_in_def by blast
    next
      case False
      then have "count t \<le> x" by simp
      from insert_new_paths[OF ti r ins _ w this, of "[]"] show ?thesis by simp
    qed
  qed
  from Cons.IH[OF ti1 r1 pop p1] insert_accepts[OF ti r ins] cap1
  show ?case by (auto simp: Un_assoc)
qed

lemma build_start:
  assumes "init_pool grant (Trie_static mem) = (t0, True)" "alloc_node grant t0 = Inr (t1, root)"
    "root \<noteq> INVALID_OFFSET"
  shows "root = 0 \<and> tree_inv t1 \<and> in_pool t1 0 \<and> terminals t1 = {} \<and>
         pool_cells t1 = capacity t1 \<and> paths_in t1 0 {} \<and> count t1 = 1"
proof -
  have t0: "t0 = \<lparr>pool = mem, pool_cells = INITIAL_POOL_CAP, count = 0, capacity = INITIAL_POOL_CAP\<rparr>"
    using assms(1) by (auto simp: init_pool_def Trie_static_def split: if_splits)
  have pv0: "pool_valid t0"
    by (simp add: t0 pool_valid_def INITIAL_POOL_CAP_def INT32_MAX_def)
  note sh = alloc_node_ok_shape[OF assms(2,3) pv0]
  have c1: "count t1 = 1" "root = 0" "pool t1 0 = bare" using sh by (simp_all add: t0)
  have cap: "pool_cells t1 = capacity t1" using sh by (simp add: t0)
  have pv1: "pool_valid t1" by (rule alloc_node_valid[OF assms(2) pv0])
  have ch: "\<And>k. k < CHILDREN_COUNT \<Longrightarrow> children (pool t1 0) ! k = INVALID_OFFSET"
    by (simp add: c1 bare_def)
  have allabs: "\<And>i k. 0 \<le> i \<and> i < count t1 \<and> k < CHILDREN_COUNT \<Longrightarrow>
      children (pool t1 i) ! k = INVALID_OFFSET"
  proof -
    fix i :: int and k assume a: "0 \<le> i \<and> i < count t1 \<and> k < CHILDREN_COUNT"
    then have "i = 0" using c1(1) by simp
    then show "children (pool t1 i) ! k = INVALID_OFFSET" using ch a by simp
  qed
  have ti1: "tree_inv t1"
    unfolding tree_inv_def using pv1 allabs by blast
  have in0: "in_pool t1 0" using pv1 c1 by (simp add: in_pool_valid)
  have "\<And>x. 0 \<le> x \<and> x < count t1 \<Longrightarrow> \<not> terminal (pool t1 x)"
  proof -
    fix x :: int assume "0 \<le> x \<and> x < count t1"
    then have "x = 0" using c1(1) by simp
    then show "\<not> terminal (pool t1 x)" using c1(3) by (simp add: bare_def)
  qed
  then have "terminals t1 = {}"
    unfolding terminals_def in_pool_valid[OF pv1] by blast
  moreover have "paths_in t1 0 {}"
    unfolding paths_in_def
  proof (intro allI impI)
    fix v x assume "walk t1 0 v = Some x"
    then show "v = [] \<or> (\<exists>w\<in>{}. prefix v w)"
      by (cases v) (auto simp: child_def dest!: slot_okD ch split: if_splits)
  qed
  ultimately show ?thesis using c1 cap ti1 in0 by simp
qed

lemma build_spec:
  assumes "build grant mem ws = Inr (Some (t, root))"
  shows "root = 0 \<and> tree_inv t \<and> in_pool t 0 \<and> (\<forall>v. accepts t 0 v \<longleftrightarrow> v \<in> set ws) \<and>
         paths_in t 0 (set ws) \<and> pool_cells t = capacity t"
proof -
  from assms obtain t0 t1 where
    i: "init_pool grant (Trie_static mem) = (t0, True)"
    and a: "alloc_node grant t0 = Inr (t1, root)" and ne: "root \<noteq> INVALID_OFFSET"
    and p: "populate_trie grant t1 root ws = Inr (t, True)"
    unfolding build_def by (auto split: prod.splits sum.splits if_splits)
  note st = build_start[OF i a ne]
  then have root: "root = 0" and ti1: "tree_inv t1" and in1: "in_pool t1 0"
    and pa: "paths_in t1 0 {}" by simp_all
  have na: "\<And>v. \<not> accepts t1 0 v" using st by (simp add: accepts_def)
  from populate_spec[OF ti1 in1 p[unfolded root] pa] na st root
  show ?thesis by simp
qed

subsection \<open>descent\<close>

lemma ac_contents_static: "ac_contents ac_static = [] \<and> ac_buffer_sz ac_static = 0"
  by (simp add: ac_contents_def ac_static_def)

lemma find_prefix_found:
  "find_prefix t n P b = Inr (m, b') \<Longrightarrow> m \<noteq> INVALID_OFFSET \<Longrightarrow>
     walk t n P = Some m \<and> ac_contents b' = ac_contents b @ P \<and>
     ac_buffer_sz b' = ac_buffer_sz b + length P"
proof (induction P arbitrary: n b)
  case Nil
  then show ?case by simp
next
  case (Cons c P)
  from Cons.prems have ok: "in_pool t n" "slot_ok (slot_of c)"
    "child t n (slot_of c) \<noteq> INVALID_OFFSET"
    by (auto simp: Let_def split: if_splits)
  with Cons.prems obtain b1 where b1: "ac_buffer_push b c = Inr b1"
    and rec: "find_prefix t (child t n (slot_of c)) P b1 = Inr (m, b')"
    by (auto simp: Let_def split: sum.splits)
  from b1 have "ac_buffer_sz b < AC_BUFFER_CAP"
    by (auto simp: ac_buffer_push_def split: if_splits)
  from ac_buffer_push_Inr[OF this, of c] b1
  have "ac_buffer_sz b1 = ac_buffer_sz b + 1" "ac_contents b1 = ac_contents b @ [c]" by auto
  with Cons.IH[OF rec Cons.prems(2)] ok show ?case by simp
qed

lemma find_prefix_walk:
  "walk t n P = Some m \<Longrightarrow> ac_buffer_sz b + length P \<le> AC_BUFFER_CAP \<Longrightarrow>
     \<exists>b'. find_prefix t n P b = Inr (m, b') \<and> ac_contents b' = ac_contents b @ P \<and>
          ac_buffer_sz b' = ac_buffer_sz b + length P"
proof (induction P arbitrary: n b)
  case Nil
  then show ?case by simp
next
  case (Cons c P)
  from Cons.prems(1) have ok: "in_pool t n" "slot_ok (slot_of c)"
    "child t n (slot_of c) \<noteq> INVALID_OFFSET"
    and w: "walk t (child t n (slot_of c)) P = Some m"
    by (auto split: if_splits)
  have "ac_buffer_sz b < AC_BUFFER_CAP" using Cons.prems(2) by simp
  from ac_buffer_push_Inr[OF this, of c] obtain b1 where b1: "ac_buffer_push b c = Inr b1"
    "ac_buffer_sz b1 = ac_buffer_sz b + 1" "ac_contents b1 = ac_contents b @ [c]" by auto
  have "ac_buffer_sz b1 + length P \<le> AC_BUFFER_CAP" using Cons.prems(2) b1(2) by simp
  from Cons.IH[OF w this] b1 ok show ?case by (auto simp: Let_def)
qed

lemma find_prefix_overflow:
  "walk t n P = Some m \<Longrightarrow> AC_BUFFER_CAP < ac_buffer_sz b + length P \<Longrightarrow>
     ac_buffer_sz b \<le> AC_BUFFER_CAP \<Longrightarrow> find_prefix t n P b = Inl Out_Of_Bounds"
proof (induction P arbitrary: n b)
  case Nil
  then show ?case by simp
next
  case (Cons c P)
  from Cons.prems(1) have ok: "in_pool t n" "slot_ok (slot_of c)"
    "child t n (slot_of c) \<noteq> INVALID_OFFSET"
    and w: "walk t (child t n (slot_of c)) P = Some m"
    by (auto split: if_splits)
  show ?case
  proof (cases "ac_buffer_sz b < AC_BUFFER_CAP")
    case True
    from ac_buffer_push_Inr[OF this, of c] obtain b1 where b1: "ac_buffer_push b c = Inr b1"
      "ac_buffer_sz b1 = ac_buffer_sz b + 1" by auto
    have "AC_BUFFER_CAP < ac_buffer_sz b1 + length P" "ac_buffer_sz b1 \<le> AC_BUFFER_CAP"
      using Cons.prems(2) True b1(2) by simp_all
    from Cons.IH[OF w this] b1 ok show ?thesis by (simp add: Let_def)
  next
    case False
    then show ?thesis using ok ac_buffer_push_full[OF False] by (simp add: Let_def)
  qed
qed


subsection \<open>suggestions after a descent\<close>

lemma suggestions_after_descent:
  assumes bld: "build grant mem ws = Inr (Some (t, root))"
    and len: "\<forall>w\<in>set ws. prefix P w \<longrightarrow> length w \<le> AC_BUFFER_CAP"
    and fp: "find_prefix t root P ac_static = Inr (n, b)" and ne: "n \<noteq> INVALID_OFFSET"
    and fuel: "nat (count t) \<le> fuel"
  shows "\<exists>b' out. print_suggestions fuel t n (b, []) = Some (Inr (b', out)) \<and>
           sorted_wrt (<) out \<and> set out = {w \<in> set ws. prefix P w}"
proof -
  note bs = build_spec[OF bld]
  then have root: "root = 0" and ti: "tree_inv t" and in0: "in_pool t 0"
    and acc: "\<And>v. accepts t 0 v \<longleftrightarrow> v \<in> set ws" and pa: "paths_in t 0 (set ws)"
    by simp_all
  have pv: "pool_valid t" using ti by (simp add: tree_inv_def)
  from find_prefix_found[OF fp[unfolded root] ne]
  have w: "walk t 0 P = Some n" and con: "ac_contents b = P" and sz: "ac_buffer_sz b = length P"
    by (simp_all add: ac_contents_static)
  have n: "in_pool t n" by (rule walk_in_pool[OF pv in0 w])
  have fit: "fits t n (ac_buffer_sz b)"
    unfolding fits_def sz
  proof (intro allI impI)
    fix v x assume "walk t n v = Some x"
    then have "walk t 0 (P @ v) = Some x" using w by (simp add: walk_append)
    then have "P @ v = [] \<or> (\<exists>w\<in>set ws. prefix (P @ v) w)"
      using pa unfolding paths_in_def by blast
    then show "length P + length v \<le> AC_BUFFER_CAP"
    proof
      assume "P @ v = []"
      then show ?thesis by simp
    next
      assume "\<exists>w\<in>set ws. prefix (P @ v) w"
      then obtain w where w: "w \<in> set ws" "prefix (P @ v) w" by blast
      then have "prefix P w" using append_prefixD by blast
      then have "length w \<le> AC_BUFFER_CAP" using len w(1) by blast
      moreover have "length (P @ v) \<le> length w" using w(2) by (rule prefix_length_le)
      ultimately show ?thesis by simp
    qed
  qed
  have fl: "nat (count t - n) \<le> fuel" using fuel n unfolding in_pool_def by linarith
  from ps_correct[OF ti n fl fit, of "[]"] obtain b' out where
    r: "print_suggestions fuel t n (b, []) = Some (Inr (b', out))" and so: "sorted_wrt (<) out"
    and se: "set out = {ac_contents b @ v | v. accepts t n v}" by auto
  have "\<And>v. accepts t n v \<longleftrightarrow> P @ v \<in> set ws"
    using acc[of "P @ _"] w by (simp add: accepts_def walk_append)
  then have "set out = {w \<in> set ws. prefix P w}"
    unfolding se con by (auto simp: prefix_def)
  with r so show ?thesis by blast
qed



subsection \<open>insertion returns\<close>

lemma alloc_node_total:
  assumes "pool_valid t" "pool_cells t = capacity t" "count t < INT32_MAX" "\<forall>n. grant n"
  shows "\<exists>t1. alloc_node grant t = Inr (t1, count t) \<and> count t \<noteq> INVALID_OFFSET"
  using assms
  by (auto simp: alloc_node_def new_node_def pool_valid_def Let_def INITIAL_POOL_CAP_def
      INVALID_OFFSET_def)

lemma insert_text_total:
  assumes "tree_inv t" "pool_cells t = capacity t" "in_pool t r" "alphabet w"
    "count t + int (length w) \<le> INT32_MAX" "\<forall>n. grant n"
  shows "\<exists>t'. insert_text grant t r w = Inr (t', True) \<and> count t' \<le> count t + int (length w)"
  using assms(1-5)
proof (induction w arbitrary: t r)
  case Nil
  then show ?case by simp
next
  case (Cons c w)
  define idx where "idx = slot_of c"
  note ti = Cons.prems(1) and cap = Cons.prems(2) and r = Cons.prems(3)
  have pv: "pool_valid t" using ti by (simp add: tree_inv_def)
  have idx: "slot_ok idx" and al: "alphabet w"
    using Cons.prems(4) by (simp_all add: alphabet_def idx_def)
  show ?case
  proof (cases "child t r idx = INVALID_OFFSET")
    case absent: True
    have "count t < INT32_MAX" using Cons.prems(5) by simp
    from alloc_node_total[OF pv cap this assms(6)] obtain t1 where
      a: "alloc_node grant t = Inr (t1, count t)" and ne: "count t \<noteq> INVALID_OFFSET" by blast
    define t2 where "t2 = set_child t1 r idx (count t)"
    have ti2: "tree_inv t2" unfolding t2_def
      by (rule set_child_tree[OF a ne ti r idx absent])
    have pv2: "pool_valid t2" using ti2 by (simp add: tree_inv_def)
    have ch2: "child t2 r idx = count t" unfolding t2_def
      by (rule set_child_shape(8)[OF a ne pv r idx])
    have cnt2: "count t2 = count t + 1" unfolding t2_def
      by (rule set_child_shape(1)[OF a ne pv r idx])
    have in2: "in_pool t2 (child t2 r idx)"
      using ch2 cnt2 pv pv2 by (simp add: in_pool_valid pool_valid_def)
    have cap2: "pool_cells t2 = capacity t2"
      using alloc_node_ok_shape[OF a ne pv] set_child_shape(2,3)[OF a ne pv r idx] cap
      by (simp add: t2_def)
    have "count t2 + int (length w) \<le> INT32_MAX" using Cons.prems(5) cnt2 by simp
    from Cons.IH[OF ti2 cap2 in2 al this] obtain t' where
      "insert_text grant t2 (child t2 r idx) w = Inr (t', True)"
      "count t' \<le> count t2 + int (length w)" by blast
    then show ?thesis
      using absent r idx a ne cnt2 by (simp add: idx_def[symmetric] Let_def t2_def[symmetric])
  next
    case present: False
    have inc: "in_pool t (child t r idx)"
      by (rule pool_valid_child[OF pv r idx present])
    have "count t + int (length w) \<le> INT32_MAX" using Cons.prems(5) by simp
    from Cons.IH[OF ti cap inc al this] obtain t' where
      "insert_text grant t (child t r idx) w = Inr (t', True)"
      "count t' \<le> count t + int (length w)" by blast
    then show ?thesis
      using present r idx by (simp add: idx_def[symmetric] Let_def)
  qed
qed

lemma populate_total:
  assumes "tree_inv t" "pool_cells t = capacity t" "in_pool t r" "list_all alphabet ws"
    "count t + int (length (concat ws)) \<le> INT32_MAX" "\<forall>n. grant n"
  shows "\<exists>t'. populate_trie grant t r ws = Inr (t', True)"
  using assms(1-5)
proof (induction ws arbitrary: t)
  case Nil
  then show ?case by simp
next
  case (Cons l ls)
  have pv: "pool_valid t" using Cons.prems(1) by (simp add: tree_inv_def)
  have "count t + int (length l) \<le> INT32_MAX" using Cons.prems(5) by simp
  from insert_text_total[OF Cons.prems(1,2,3) _ this assms(6)] Cons.prems(4)
  obtain t1 where i: "insert_text grant t r l = Inr (t1, True)"
    and c: "count t1 \<le> count t + int (length l)" by auto
  from insert_text_spec[OF Cons.prems(1,3) i] Cons.prems(2)
  have ti1: "tree_inv t1" and e: "ext t t1" and cap1: "pool_cells t1 = capacity t1" by auto
  have pv1: "pool_valid t1" using ti1 by (simp add: tree_inv_def)
  have r1: "in_pool t1 r" by (rule ext_in_pool[OF e pv pv1 Cons.prems(3)])
  have "count t1 + int (length (concat ls)) \<le> INT32_MAX" using Cons.prems(5) c by simp
  from Cons.IH[OF ti1 cap1 r1 _ this] Cons.prems(4) i show ?case by simp
qed

lemma build_total:
  assumes "list_all alphabet ws" "1 + int (length (concat ws)) \<le> INT32_MAX"
  shows "\<exists>t. build grant_all mem ws = Inr (Some (t, 0))"
proof -
  obtain t0 where i: "init_pool grant_all (Trie_static mem) = (t0, True)"
    by (simp add: init_pool_def grant_all_def)
  then have t0: "t0 = \<lparr>pool = mem, pool_cells = INITIAL_POOL_CAP, count = 0, capacity = INITIAL_POOL_CAP\<rparr>"
    by (auto simp: init_pool_def Trie_static_def split: if_splits)
  have pv0: "pool_valid t0"
    by (simp add: t0 pool_valid_def INITIAL_POOL_CAP_def INT32_MAX_def)
  have "\<exists>t1. alloc_node grant_all t0 = Inr (t1, count t0) \<and> count t0 \<noteq> INVALID_OFFSET"
    by (rule alloc_node_total[OF pv0]) (simp_all add: t0 INT32_MAX_def grant_all_def)
  then obtain t1 where a: "alloc_node grant_all t0 = Inr (t1, 0)" and ne: "(0::int) \<noteq> INVALID_OFFSET"
    by (auto simp: t0)
  from build_start[OF i a ne] have st: "tree_inv t1" "in_pool t1 0" "pool_cells t1 = capacity t1"
    "count t1 = 1" by simp_all
  have "\<exists>t'. populate_trie grant_all t1 0 ws = Inr (t', True)"
    by (rule populate_total[OF st(1,3,2) assms(1)]) (use assms(2) st(4) in \<open>simp_all add: grant_all_def\<close>)
  then obtain t' where "populate_trie grant_all t1 0 ws = Inr (t', True)" by blast
  with i a ne show ?thesis by (simp add: build_def)
qed

lemma demo_build: "build grant_all blank demo_words = Inr (Some (demo_trie, 0))"
proof -
  have "\<exists>t. build grant_all blank demo_words = Inr (Some (t, 0))"
    by (rule build_total)
      (simp_all add: demo_words_def alphabet_def slot_ok_def slot_of_def ASCII_OFFSET_def
        CHILDREN_COUNT_def INT32_MAX_def)
  then show ?thesis unfolding demo_trie_def by auto
qed

lemma accepts_prefix_walk:
  "accepts t n (u @ v) \<Longrightarrow> \<exists>m. walk t n u = Some m"
  by (auto simp: accepts_def walk_append split: option.splits)

lemma demo_find: "find_prefix demo_trie 0 ''ca'' ac_static = Inr (demo_node, demo_buf) \<and>
    demo_node \<noteq> INVALID_OFFSET"
proof -
  note bs = build_spec[OF demo_build]
  then have "accepts demo_trie 0 (''ca'' @ ''t'')" by (simp add: demo_words_def)
  then obtain m where m: "walk demo_trie 0 ''ca'' = Some m" using accepts_prefix_walk by blast
  have pv: "pool_valid demo_trie" using bs by (simp add: tree_inv_def)
  have "in_pool demo_trie m" using walk_in_pool[OF pv _ m] bs by simp
  then have "m \<noteq> INVALID_OFFSET" by (auto simp: in_pool_def INVALID_OFFSET_def)
  moreover from find_prefix_walk[OF m, of ac_static] obtain b' where
    "find_prefix demo_trie 0 ''ca'' ac_static = Inr (m, b')"
    by (auto simp: ac_contents_static AC_BUFFER_CAP_def)
  ultimately show ?thesis by (simp add: demo_node_def demo_buf_def)
qed

lemma ps_step_fault: "ps_step fuel t n i (Some (Inl f)) = Some (Inl f)"
  by (simp add: ps_step_def)

lemma not_fits_child:
  assumes nf: "\<not> fits t n s" and s: "s \<le> AC_BUFFER_CAP"
  shows "\<exists>i<CHILDREN_COUNT. child t n (int i) \<noteq> INVALID_OFFSET \<and>
           (s = AC_BUFFER_CAP \<or> \<not> fits t (child t n (int i)) (s + 1))"
proof -
  from nf obtain v x where v: "walk t n v = Some x" "AC_BUFFER_CAP < s + length v"
    unfolding fits_def by (auto simp: not_le)
  then obtain c v' where cv: "v = c # v'" using s by (cases v) auto
  with v(1) have c: "in_pool t n" "slot_ok (slot_of c)" "child t n (slot_of c) \<noteq> INVALID_OFFSET"
    and w: "walk t (child t n (slot_of c)) v' = Some x"
    by (auto split: if_splits)
  let ?i = "nat (slot_of c)"
  have i: "?i < CHILDREN_COUNT" "int ?i = slot_of c" using c(2) by (simp_all add: slot_okD)
  have "\<not> fits t (child t n (int ?i)) (s + 1)"
    unfolding fits_def i(2) using w v(2) cv by (auto simp: not_le)
  with i c(3) show ?thesis by auto
qed

lemma ps_overflow:
  assumes ti: "tree_inv t"
  shows "in_pool t n \<Longrightarrow> nat (count t - n) \<le> fuel \<Longrightarrow> ac_buffer_sz b \<le> AC_BUFFER_CAP \<Longrightarrow>
    \<not> fits t n (ac_buffer_sz b) \<Longrightarrow>
    print_suggestions fuel t n (b, out) = Some (Inl Out_Of_Bounds)"
proof (induction fuel arbitrary: n b out)
  case 0
  then show ?case by (simp add: in_pool_def)
next
  case (Suc fuel)
  note n = Suc.prems(1) and oprems = Suc.prems and oIH = Suc.IH
  have pv: "pool_valid t" using ti by (simp add: tree_inv_def)
  let ?s = "ac_buffer_sz b"
  let ?bad = "\<lambda>i. child t n (int i) \<noteq> INVALID_OFFSET \<and>
                 (?s = AC_BUFFER_CAP \<or> \<not> fits t (child t n (int i)) (?s + 1))"
  have fold_inv: "j \<le> CHILDREN_COUNT \<Longrightarrow>
      (if \<exists>i<j. ?bad i
       then fold (ps_step fuel t n) [0..<j] (Some (Inr (b, out0))) = Some (Inl Out_Of_Bounds)
       else \<exists>bj outj. fold (ps_step fuel t n) [0..<j] (Some (Inr (b, out0))) = Some (Inr (bj, outj)) \<and>
              ac_buffer_sz bj = ?s)" for j out0
  proof (induction j)
    case 0
    show ?case by simp
  next
    case (Suc j)
    then have j: "j < CHILDREN_COUNT" by simp
    have fold_eq: "fold (ps_step fuel t n) [0..<Suc j] (Some (Inr (b, out0))) =
        ps_step fuel t n j (fold (ps_step fuel t n) [0..<j] (Some (Inr (b, out0))))"
      by simp
    show ?case
    proof (cases "\<exists>i<j. ?bad i")
      case True
      have jl: "j \<le> CHILDREN_COUNT" using j by simp
      have "fold (ps_step fuel t n) [0..<j] (Some (Inr (b, out0))) = Some (Inl Out_Of_Bounds)"
        using Suc.IH[OF jl, unfolded if_P[OF True]] .
      moreover have "\<exists>i<Suc j. ?bad i" using True less_Suc_eq by blast
      ultimately show ?thesis unfolding fold_eq by (simp add: ps_step_fault)
    next
      case nobad: False
      have jl: "j \<le> CHILDREN_COUNT" using j by simp
      from Suc.IH[OF jl, unfolded if_not_P[OF nobad]] obtain bj outj where
        f: "fold (ps_step fuel t n) [0..<j] (Some (Inr (b, out0))) = Some (Inr (bj, outj))"
        and sz: "ac_buffer_sz bj = ?s"
        by blast
      have bad_iff: "(\<exists>i<Suc j. ?bad i) \<longleftrightarrow> ?bad j"
        using nobad less_Suc_eq by auto
      show ?thesis
      proof (cases "child t n (int j) = INVALID_OFFSET")
        case True
        then have "ps_step fuel t n j (Some (Inr (bj, outj))) = Some (Inr (bj, outj))"
          by (simp add: ps_step_def)
        then show ?thesis unfolding bad_iff fold_eq f using True sz by simp
      next
        case present: False
        let ?c = "child t n (int j)"
        have sj: "slot_ok (int j)" using j by (simp add: slot_ok_def)
        have c_in: "in_pool t ?c" by (rule pool_valid_child[OF pv n sj present])
        have c_gt: "n < ?c" by (rule tree_inv_child_gt[OF ti n sj present])
        have fl: "nat (count t - ?c) \<le> fuel" using oprems(2) c_gt c_in
          unfolding in_pool_def by linarith
        show ?thesis
        proof (cases "?s = AC_BUFFER_CAP")
          case True
          then have "ac_buffer_push bj (label_of j) = Inl Out_Of_Bounds"
            using sz by (simp add: ac_buffer_push_full)
          then have "ps_step fuel t n j (Some (Inr (bj, outj))) = Some (Inl Out_Of_Bounds)"
            using present by (simp add: ps_step_def)
          then show ?thesis unfolding bad_iff fold_eq f using present True by simp
        next
          case False
          then have lt: "ac_buffer_sz bj < AC_BUFFER_CAP" using oprems(3) sz by simp
          from ac_buffer_push_Inr[OF lt, of "label_of j"] obtain b2 where
            b2: "ac_buffer_push bj (label_of j) = Inr b2" "ac_buffer_sz b2 = ?s + 1"
            using sz by auto
          show ?thesis
          proof (cases "fits t ?c (?s + 1)")
            case True
            from ps_correct[OF ti c_in fl, of b2 outj] True b2(2) obtain b3 ws where
              r: "print_suggestions fuel t ?c (b2, outj) = Some (Inr (b3, outj @ ws))"
              and sz3: "ac_buffer_sz b3 = ac_buffer_sz b2" by auto
            have "ps_step fuel t n j (Some (Inr (bj, outj))) =
                Some (Inr (ac_buffer_pop b3, outj @ ws))"
              using present b2(1) r by (simp add: ps_step_def)
            moreover have "ac_buffer_sz (ac_buffer_pop b3) = ?s"
              using sz3 b2(2) by (simp add: ac_buffer_pop_def)
            ultimately show ?thesis unfolding bad_iff fold_eq f using True False by simp
          next
            case nf: False
            have "ac_buffer_sz b2 \<le> AC_BUFFER_CAP" using b2(2) lt sz by simp
            from oIH[OF c_in fl this, of outj] nf b2(2)
            have "print_suggestions fuel t ?c (b2, outj) = Some (Inl Out_Of_Bounds)" by simp
            then have "ps_step fuel t n j (Some (Inr (bj, outj))) = Some (Inl Out_Of_Bounds)"
              using present b2(1) by (simp add: ps_step_def)
            then show ?thesis unfolding bad_iff fold_eq f using present nf by simp
          qed
        qed
      qed
    qed
  qed
  from not_fits_child[OF Suc.prems(4) Suc.prems(3)]
  have "\<exists>i<CHILDREN_COUNT. ?bad i" by simp
  with fold_inv[of CHILDREN_COUNT]
  show ?case unfolding print_suggestions_Suc using n by simp
qed


subsection \<open>the example tries\<close>

lemma start_init: "init_pool grant_all (Trie_static blank) = (start_trie, True)"
  by (simp add: start_trie_def init_pool_def grant_all_def)

lemma root_alloc: "alloc_node grant_all start_trie = Inr (root_trie, 0)"
  unfolding root_trie_def start_trie_def
  by (simp add: init_pool_def grant_all_def Trie_static_def alloc_node_def new_node_def
      INITIAL_POOL_CAP_def INT32_MAX_def)

lemma root_trie_props:
  "tree_inv root_trie \<and> in_pool root_trie 0 \<and> terminals root_trie = {} \<and>
   pool_cells root_trie = capacity root_trie \<and> paths_in root_trie 0 {} \<and> count root_trie = 1"
  using build_start[OF start_init root_alloc] by (simp add: INVALID_OFFSET_def)

lemma alphabet_replicate_a: "alphabet (replicate k (CHR ''a''))"
  by (simp add: alphabet_def list_all_iff slot_ok_def slot_of_def ASCII_OFFSET_def CHILDREN_COUNT_def)

lemma long_word_props: "alphabet long_word" "length long_word = 2049"
  unfolding long_word_def by (rule alphabet_replicate_a) (simp only: length_replicate)

lemma long_trie_insert: "insert_text grant_all root_trie 0 long_word = Inr (long_trie, True)"
proof -
  have ti0: "tree_inv root_trie" and in0: "in_pool root_trie 0"
    and cap0: "pool_cells root_trie = capacity root_trie" and cnt0: "count root_trie = 1"
    using root_trie_props by simp_all
  have le: "count root_trie + int (length long_word) \<le> INT32_MAX"
    by (simp add: cnt0 long_word_props(2) INT32_MAX_def)
  have gr: "\<forall>n. grant_all n" by (simp add: grant_all_def)
  from insert_text_total[OF ti0 cap0 in0 long_word_props(1) le gr]
  show ?thesis unfolding long_trie_def by auto
qed

lemma long_trie_build: "build grant_all blank [long_word] = Inr (Some (long_trie, 0))"
  by (simp add: build_def start_init root_alloc long_trie_insert INVALID_OFFSET_def)

lemma long_trie_walk: "tree_inv long_trie \<and> in_pool long_trie 0 \<and>
    (\<exists>m. walk long_trie 0 long_word = Some m)"
proof -
  from build_spec[OF long_trie_build] have "tree_inv long_trie" "in_pool long_trie 0"
    "accepts long_trie 0 long_word" by simp_all
  then show ?thesis unfolding accepts_def by blast
qed


lemma find_prefix_size:
  "find_prefix t n P b = Inr (m, b') \<Longrightarrow> ac_buffer_sz b \<le> AC_BUFFER_CAP \<Longrightarrow>
     ac_buffer_sz b' \<le> AC_BUFFER_CAP"
proof (induction P arbitrary: n b)
  case Nil
  then show ?case by simp
next
  case (Cons c P)
  show ?case
  proof (cases "child t n (slot_of c) = INVALID_OFFSET")
    case True
    then show ?thesis using Cons.prems by (auto simp: Let_def split: if_splits)
  next
    case False
    with Cons.prems(1) obtain b1 where b1: "ac_buffer_push b c = Inr b1"
      and rec: "find_prefix t (child t n (slot_of c)) P b1 = Inr (m, b')"
      by (auto simp: Let_def split: sum.splits if_splits)
    from b1 have "ac_buffer_sz b1 \<le> AC_BUFFER_CAP"
      by (auto simp: ac_buffer_push_def split: if_splits)
    from Cons.IH[OF rec this] show ?thesis .
  qed
qed

section \<open>Suggestions\<close>

text \<open>
  C1 as the code has it. Let the trie be built from the word list \<open>ws\<close> by the start
  of \<open>main\<close>, let prefix descent on \<open>P\<close> from the root with the empty buffer return a
  node, and let every inserted word that has \<open>P\<close> as a prefix have at most
  \<open>AC_BUFFER_CAP\<close> bytes. Then suggestion collection from that node returns (given
  fuel for as many nested calls as there are nodes), every emitted word starts with
  \<open>P\<close>, and the emitted words are exactly the inserted words that have \<open>P\<close> as a
  prefix, each emitted once.
\<close>

theorem suggestions_exact:
  assumes "build grant mem ws = Inr (Some (t, root))"
    and "\<forall>w\<in>set ws. prefix P w \<longrightarrow> length w \<le> AC_BUFFER_CAP"
    and "find_prefix t root P ac_static = Inr (n, b)" and "n \<noteq> INVALID_OFFSET"
    and "nat (count t) \<le> fuel"
  shows "\<exists>b' out. print_suggestions fuel t n (b, []) = Some (Inr (b', out)) \<and>
           (\<forall>w\<in>set out. prefix P w) \<and> set out = {w \<in> set ws. prefix P w} \<and> distinct out"
proof -
  from suggestions_after_descent[OF assms] obtain b' out where
    r: "print_suggestions fuel t n (b, []) = Some (Inr (b', out))"
    and so: "sorted_wrt (<) out" and se: "set out = {w \<in> set ws. prefix P w}" by blast
  have "distinct out" using so strict_sorted_iff by blast
  with r se show ?thesis by blast
qed

lemma demo_completions:
  "{w \<in> set demo_words. prefix ''ca'' w} = {''cat'', ''car'', ''cart''}"
  "set [''car'', ''cart'', ''cat''] = {''cat'', ''car'', ''cart''}"
proof -
  have "{w \<in> set demo_words. prefix ''ca'' w} = set (filter (prefix ''ca'') demo_words)"
    by simp
  also have "filter (prefix ''ca'') demo_words = [''cat'', ''car'', ''cart'']"
    by (simp add: demo_words_def)
  finally show "{w \<in> set demo_words. prefix ''ca'' w} = {''cat'', ''car'', ''cart''}"
    by simp
  show "set [''car'', ''cart'', ''cat''] = {''cat'', ''car'', ''cart''}"
    by (simp add: insert_commute)
qed

theorem suggestions_exact_witness:
  "build grant_all blank demo_words = Inr (Some (demo_trie, 0)) \<and>
   find_prefix demo_trie 0 ''ca'' ac_static = Inr (demo_node, demo_buf) \<and>
   demo_node \<noteq> INVALID_OFFSET \<and>
   (\<exists>b' out. print_suggestions (nat (count demo_trie)) demo_trie demo_node (demo_buf, []) =
        Some (Inr (b', out)) \<and>
      set out = {''cat'', ''car'', ''cart''} \<and> distinct out)"
proof -
  have len: "\<forall>w\<in>set demo_words. prefix ''ca'' w \<longrightarrow> length w \<le> AC_BUFFER_CAP"
    by (simp add: demo_words_def AC_BUFFER_CAP_def)
  from suggestions_exact[OF demo_build len conjunct1[OF demo_find] conjunct2[OF demo_find] order_refl]
  obtain b' out where
    "print_suggestions (nat (count demo_trie)) demo_trie demo_node (demo_buf, []) = Some (Inr (b', out))"
    "set out = {w \<in> set demo_words. prefix ''ca'' w}" "distinct out" by blast
  then have "\<exists>b' out. print_suggestions (nat (count demo_trie)) demo_trie demo_node (demo_buf, []) =
        Some (Inr (b', out)) \<and> set out = {''cat'', ''car'', ''cart''} \<and> distinct out"
    unfolding demo_completions(1) by blast
  with demo_build demo_find show ?thesis by blast
qed

text \<open>
  A word of \<open>AC_BUFFER_CAP + 1\<close> bytes is inserted, and suggestions are asked for the
  empty prefix: descent succeeds, and the traversal writes past the end of
  \<open>ac_buffer\<close> instead of emitting the word.
\<close>

theorem suggestions_overflow:
  "build grant_all blank [long_word] = Inr (Some (long_trie, 0)) \<and>
   find_prefix long_trie 0 [] ac_static = Inr (0, ac_static) \<and>
   print_suggestions (nat (count long_trie)) long_trie 0 (ac_static, []) = Some (Inl Out_Of_Bounds)"
proof -
  from long_trie_walk obtain m where ti: "tree_inv long_trie" and in0: "in_pool long_trie 0"
    and w: "walk long_trie 0 long_word = Some m" by blast
  have "\<not> ac_buffer_sz ac_static + length long_word \<le> AC_BUFFER_CAP"
    by (simp add: long_word_props(2) ac_contents_static AC_BUFFER_CAP_def)
  with w have "\<not> fits long_trie 0 (ac_buffer_sz ac_static)"
    unfolding fits_def by blast
  then have "print_suggestions (nat (count long_trie)) long_trie 0 (ac_static, []) =
      Some (Inl Out_Of_Bounds)"
    by (intro ps_overflow[OF ti in0]) (simp_all add: ac_contents_static)
  with long_trie_build show ?thesis by simp
qed

text \<open>
  C3 as the code has it. Let the trie be built from the word list \<open>ws\<close> by the start
  of \<open>main\<close>, let prefix descent on \<open>P\<close> from the root with the empty buffer return a
  node, and let every inserted word that has \<open>P\<close> as a prefix have at most
  \<open>AC_BUFFER_CAP\<close> bytes. Then suggestion collection from that node returns (given
  fuel for as many nested calls as there are nodes), and what it emits is the list of
  the completions of \<open>P\<close>, each once, in strictly ascending lexicographic order of
  their bytes: a word comes before every word it is a proper prefix of (the terminal
  word of a node is emitted before the words below it), and words that part at a
  branch point are ordered by the byte at which they part.
\<close>

theorem suggestions_sorted:
  assumes "build grant mem ws = Inr (Some (t, root))"
    and "\<forall>w\<in>set ws. prefix P w \<longrightarrow> length w \<le> AC_BUFFER_CAP"
    and "find_prefix t root P ac_static = Inr (n, b)" and "n \<noteq> INVALID_OFFSET"
    and "nat (count t) \<le> fuel"
  shows "\<exists>b' out. print_suggestions fuel t n (b, []) = Some (Inr (b', out)) \<and>
           out = sorted_list_of_set {w \<in> set ws. prefix P w} \<and>
           set out = {w \<in> set ws. prefix P w} \<and> sorted_wrt (<) out"
proof -
  from suggestions_after_descent[OF assms] obtain b' out where
    r: "print_suggestions fuel t n (b, []) = Some (Inr (b', out))"
    and so: "sorted_wrt (<) out" and se: "set out = {w \<in> set ws. prefix P w}" by blast
  have "sorted out" "distinct out" using so strict_sorted_iff by blast+
  then have "sorted_list_of_set (set out) = out"
    by (rule sorted_list_of_set.idem_if_sorted_distinct)
  then have "out = sorted_list_of_set {w \<in> set ws. prefix P w}" unfolding se by simp
  with r so se show ?thesis by blast
qed

theorem suggestions_sorted_witness:
  "build grant_all blank demo_words = Inr (Some (demo_trie, 0)) \<and>
   list_all (\<lambda>w. length w \<le> AC_BUFFER_CAP) demo_words \<and>
   find_prefix demo_trie 0 ''ca'' ac_static = Inr (demo_node, demo_buf) \<and>
   demo_node \<noteq> INVALID_OFFSET \<and>
   (\<exists>b'. print_suggestions (nat (count demo_trie)) demo_trie demo_node (demo_buf, []) =
        Some (Inr (b', [''car'', ''cart'', ''cat''])))"
proof -
  have la: "list_all (\<lambda>w. length w \<le> AC_BUFFER_CAP) demo_words"
    by (simp add: demo_words_def AC_BUFFER_CAP_def)
  then have len: "\<forall>w\<in>set demo_words. prefix ''ca'' w \<longrightarrow> length w \<le> AC_BUFFER_CAP"
    by (simp add: list_all_iff)
  from suggestions_sorted[OF demo_build len conjunct1[OF demo_find] conjunct2[OF demo_find] order_refl]
  obtain b' out where
    r: "print_suggestions (nat (count demo_trie)) demo_trie demo_node (demo_buf, []) = Some (Inr (b', out))"
    and se: "set out = {w \<in> set demo_words. prefix ''ca'' w}"
    and sw: "sorted_wrt (<) out" by blast
  have so: "sorted out" "distinct out" using sw strict_sorted_iff by blast+
  have se': "set out = set [''car'', ''cart'', ''cat'']"
    unfolding se demo_completions ..
  have "sorted [''car'', ''cart'', ''cat''] \<and> distinct [''car'', ''cart'', ''cat'']"
    by (simp add: less_char_def)
  then have "out = [''car'', ''cart'', ''cat'']"
    using sorted_distinct_set_unique[OF so(1) so(2) _ _ se'] by blast
  with r demo_build la demo_find show ?thesis by blast
qed

lemma two_trie_build: "build grant_all blank two_words = Inr (Some (two_trie, 0))"
proof -
  have al: "list_all alphabet two_words"
    unfolding two_words_def
    by (simp add: long_word_props(1))
      (simp add: alphabet_def slot_ok_def slot_of_def ASCII_OFFSET_def CHILDREN_COUNT_def)
  have le: "1 + int (length (concat two_words)) \<le> INT32_MAX"
    unfolding two_words_def by (simp add: long_word_props(2) INT32_MAX_def)
  from build_total[OF al le, of blank] show ?thesis unfolding two_trie_def by auto
qed

text \<open>
  A word of \<open>AC_BUFFER_CAP + 1\<close> bytes and the word \<open>b\<close> are inserted, so the empty
  prefix has two completions: the traversal writes past the end of \<open>ac_buffer\<close> and
  emits no ordered list of them.
\<close>

theorem suggestions_sorted_overflow:
  "build grant_all blank two_words = Inr (Some (two_trie, 0)) \<and>
   find_prefix two_trie 0 [] ac_static = Inr (0, ac_static) \<and>
   print_suggestions (nat (count two_trie)) two_trie 0 (ac_static, []) = Some (Inl Out_Of_Bounds)"
proof -
  note bs = build_spec[OF two_trie_build]
  then have ti: "tree_inv two_trie" and in0: "in_pool two_trie 0" by simp_all
  from bs have "accepts two_trie 0 long_word" by (simp add: two_words_def)
  then obtain m where w: "walk two_trie 0 long_word = Some m" unfolding accepts_def by blast
  have "\<not> ac_buffer_sz ac_static + length long_word \<le> AC_BUFFER_CAP"
    by (simp add: long_word_props(2) ac_contents_static AC_BUFFER_CAP_def)
  with w have "\<not> fits two_trie 0 (ac_buffer_sz ac_static)"
    unfolding fits_def by blast
  then have "print_suggestions (nat (count two_trie)) two_trie 0 (ac_static, []) =
      Some (Inl Out_Of_Bounds)"
    by (intro ps_overflow[OF ti in0]) (simp_all add: ac_contents_static)
  with two_trie_build show ?thesis by simp
qed

section \<open>Inserted words are found\<close>

text \<open>
  C2 as the code has it. In a well-formed trie, after \<open>insert_text\<close> has returned true
  for \<open>W\<close> (and after any further successful insertions), prefix descent on \<open>W\<close> from
  the same root returns a node whose \<open>terminal\<close> flag is set, provided the bytes of
  \<open>W\<close> fit into what is left of \<open>ac_buffer\<close>.
\<close>

theorem inserted_word_found:
  assumes "tree_inv t0" and "in_pool t0 root_idx"
    and "insert_text grant t0 root_idx W = Inr (t1, True)"
    and "populate_trie grant t1 root_idx ws = Inr (t, True)"
    and "ac_buffer_sz b + length W \<le> AC_BUFFER_CAP"
  shows "\<exists>m b'. find_prefix t root_idx W b = Inr (m, b') \<and> m \<noteq> INVALID_OFFSET \<and>
           in_pool t m \<and> terminal (pool t m)"
proof -
  have pv0: "pool_valid t0" using assms(1) by (simp add: tree_inv_def)
  from insert_text_spec[OF assms(1,2,3)] have ti1: "tree_inv t1" and e: "ext t0 t1" by auto
  have pv1: "pool_valid t1" using ti1 by (simp add: tree_inv_def)
  have r1: "in_pool t1 root_idx" by (rule ext_in_pool[OF e pv0 pv1 assms(2)])
  have "accepts t1 root_idx W" using insert_accepts[OF assms(1,2,3)] by simp
  moreover have "paths_in t1 root_idx UNIV" unfolding paths_in_def by auto
  ultimately have "accepts t root_idx W"
    using populate_spec[OF ti1 r1 assms(4)] by blast
  then obtain m where m: "walk t root_idx W = Some m" "m \<in> terminals t"
    unfolding accepts_def by blast
  from find_prefix_walk[OF m(1) assms(5)] obtain b' where
    "find_prefix t root_idx W b = Inr (m, b')" by blast
  moreover have "in_pool t m" "terminal (pool t m)" "m \<noteq> INVALID_OFFSET"
    using m(2) by (auto simp: terminals_def in_pool_def INVALID_OFFSET_def)
  ultimately show ?thesis by blast
qed

lemma alphabet_cat_car: "alphabet ''cat''" "list_all alphabet [''car'']"
  by (simp_all add: alphabet_def slot_ok_def slot_of_def ASCII_OFFSET_def CHILDREN_COUNT_def)

lemma cat_trie_insert:
  "insert_text grant_all root_trie 0 ''cat'' = Inr (cat_trie, True) \<and> count cat_trie \<le> 4"
proof -
  have ti0: "tree_inv root_trie" and in0: "in_pool root_trie 0"
    and cap0: "pool_cells root_trie = capacity root_trie" and cnt0: "count root_trie = 1"
    using root_trie_props by simp_all
  have le: "count root_trie + int (length ''cat'') \<le> INT32_MAX"
    by (simp add: cnt0 INT32_MAX_def)
  have gr: "\<forall>n. grant_all n" by (simp add: grant_all_def)
  from insert_text_total[OF ti0 cap0 in0 alphabet_cat_car(1) le gr] obtain t' where
    t': "insert_text grant_all root_trie 0 ''cat'' = Inr (t', True)"
      "count t' \<le> count root_trie + int (length ''cat'')" by blast
  then have "cat_trie = t'" by (simp add: cat_trie_def)
  with t' cnt0 show ?thesis by simp
qed

lemma cat_car_trie_populate:
  "populate_trie grant_all cat_trie 0 [''car''] = Inr (cat_car_trie, True)"
proof -
  have ti0: "tree_inv root_trie" and in0: "in_pool root_trie 0"
    and cap0: "pool_cells root_trie = capacity root_trie"
    using root_trie_props by simp_all
  note ins = conjunct1[OF cat_trie_insert]
  note sp = insert_text_spec[OF ti0 in0 ins]
  have ti: "tree_inv cat_trie" using sp by blast
  have e: "ext root_trie cat_trie" using sp by blast
  have cap: "pool_cells cat_trie = capacity cat_trie" using sp cap0 by blast
  have pv: "pool_valid cat_trie" using ti by (simp add: tree_inv_def)
  have pv0: "pool_valid root_trie" using ti0 by (simp add: tree_inv_def)
  have r: "in_pool cat_trie 0" by (rule ext_in_pool[OF e pv0 pv in0])
  have le: "count cat_trie + int (length (concat [''car''])) \<le> INT32_MAX"
    using conjunct2[OF cat_trie_insert] by (simp add: INT32_MAX_def)
  have gr: "\<forall>n. grant_all n" by (simp add: grant_all_def)
  from populate_total[OF ti cap r alphabet_cat_car(2) le gr]
  show ?thesis unfolding cat_car_trie_def by auto
qed

theorem inserted_word_found_witness:
  "tree_inv root_trie \<and> in_pool root_trie 0 \<and>
   insert_text grant_all root_trie 0 ''cat'' = Inr (cat_trie, True) \<and>
   populate_trie grant_all cat_trie 0 [''car''] = Inr (cat_car_trie, True) \<and>
   ac_buffer_sz ac_static + length ''cat'' \<le> AC_BUFFER_CAP \<and>
   (\<exists>m b'. find_prefix cat_car_trie 0 ''cat'' ac_static = Inr (m, b') \<and> m \<noteq> INVALID_OFFSET \<and>
      in_pool cat_car_trie m \<and> terminal (pool cat_car_trie m))"
proof -
  have ti: "tree_inv root_trie" and r: "in_pool root_trie 0" using root_trie_props by simp_all
  have fit: "ac_buffer_sz ac_static + length ''cat'' \<le> AC_BUFFER_CAP"
    by (simp add: ac_contents_static AC_BUFFER_CAP_def)
  note ins = conjunct1[OF cat_trie_insert]
  from inserted_word_found[OF ti r ins cat_car_trie_populate fit]
    ti r ins cat_car_trie_populate fit
  show ?thesis by blast
qed

text \<open>
  A word of \<open>AC_BUFFER_CAP + 1\<close> bytes is inserted successfully, and prefix descent on
  it writes past the end of \<open>ac_buffer\<close> at its last byte.
\<close>

theorem inserted_word_overflow:
  "insert_text grant_all root_trie 0 long_word = Inr (long_trie, True) \<and>
   find_prefix long_trie 0 long_word ac_static = Inl Out_Of_Bounds"
proof -
  from long_trie_walk obtain m where w: "walk long_trie 0 long_word = Some m" by blast
  have "AC_BUFFER_CAP < ac_buffer_sz ac_static + length long_word"
    by (simp add: long_word_props(2) ac_contents_static AC_BUFFER_CAP_def)
  from find_prefix_overflow[OF w this] long_trie_insert show ?thesis
    by (simp add: ac_contents_static)
qed

section \<open>Idempotence of insertion\<close>

lemma Node_terminal_idem: "terminal n \<Longrightarrow> n\<lparr>terminal := True\<rparr> = n"
  by (cases n) simp

lemma insert_present:
  "walk t r w = Some m \<Longrightarrow> m \<in> terminals t \<Longrightarrow> insert_text grant t r w = Inr (t, True)"
proof (induction w arbitrary: r)
  case Nil
  then have "in_pool t r" "terminal (pool t r)" by (simp_all add: terminals_def)
  then show ?case by (simp add: Node_terminal_idem)
next
  case (Cons c w)
  from Cons.prems(1) have ok: "in_pool t r" "slot_ok (slot_of c)"
    "child t r (slot_of c) \<noteq> INVALID_OFFSET"
    and w: "walk t (child t r (slot_of c)) w = Some m"
    by (auto split: if_splits)
  from Cons.IH[OF w Cons.prems(2)] ok show ?case by (simp add: Let_def)
qed

text \<open>
  C4. In a well-formed trie, once \<open>insert_text\<close> has returned true for a word,
  inserting the same word again (whatever the allocator would answer) returns true
  and leaves the whole state as it was: the same pool cells, so the same terminal set
  and the same results of descent and traversal, and the same \<open>count\<close>, so no node
  was allocated.
\<close>

theorem insert_text_idempotent:
  assumes "tree_inv t" and "in_pool t root_idx"
    and "insert_text grant t root_idx w = Inr (t1, True)"
  shows "\<exists>t2. insert_text grant' t1 root_idx w = Inr (t2, True) \<and> t2 = t1 \<and>
           count t2 = count t1 \<and> terminals t2 = terminals t1"
proof -
  from insert_text_spec[OF assms] obtain m where
    "walk t1 root_idx w = Some m" "terminals t1 = insert m (terminals t)" by auto
  then have "insert_text grant' t1 root_idx w = Inr (t1, True)"
    by (intro insert_present[of t1 root_idx w m]) simp_all
  then show ?thesis by simp
qed

theorem insert_text_idempotent_witness:
  "tree_inv root_trie \<and> in_pool root_trie 0 \<and>
   insert_text grant_all root_trie 0 ''cat'' = Inr (cat_trie, True) \<and>
   insert_text (grant_upto 0) cat_trie 0 ''cat'' = Inr (cat_trie, True)"
proof -
  have ti: "tree_inv root_trie" and r: "in_pool root_trie 0" using root_trie_props by simp_all
  note ins = conjunct1[OF cat_trie_insert]
  from insert_text_idempotent[OF ti r ins, of "grant_upto 0"] ti r ins
  show ?thesis by simp
qed


section \<open>Allocation failures\<close>

lemma full_pool_slot:
  assumes "0 < n"
  shows "in_pool (full_pool n) 0" "slot_ok (slot_of (CHR ''a''))"
    "child (full_pool n) 0 (slot_of (CHR ''a'')) = INVALID_OFFSET"
  using assms
  by (simp_all add: full_pool_def in_pool_def slot_ok_def slot_of_def ASCII_OFFSET_def
      CHILDREN_COUNT_def child_def bare_def)

text \<open>
  C6 as the code has it. When \<open>alloc_node\<close> finds the pool full at the capacity
  \<open>INT32_MAX\<close>, it ends the process with \<open>exit(EXIT_FAILURE)\<close>: an insertion that needs a
  node there does not return to its caller, nor does \<open>populate_trie\<close>. The failure the
  core does hand back is the one of the allocator: when the larger block is not
  granted, \<open>alloc_node\<close> returns \<open>INVALID_OFFSET\<close>, and \<open>insert_text\<close> and
  \<open>populate_trie\<close> return false.
\<close>

theorem capacity_exhausted_exits:
  assumes "in_pool t root_idx" and "slot_ok (slot_of c)"
    and "child t root_idx (slot_of c) = INVALID_OFFSET"
    and "capacity t \<le> count t" and "0 \<le> capacity t"
  shows "(capacity t = INT32_MAX \<longrightarrow>
            alloc_node grant t = Inl Exit_Failure \<and>
            insert_text grant t root_idx (c # text) = Inl Exit_Failure \<and>
            populate_trie grant t root_idx ((c # text) # lines) = Inl Exit_Failure) \<and>
         (capacity t < INT32_MAX \<and>
          \<not> grant (if INT32_MAX - capacity t < INITIAL_POOL_CAP then INT32_MAX
                    else capacity t + INITIAL_POOL_CAP) \<longrightarrow>
            (\<exists>t1. alloc_node grant t = Inr (t1, INVALID_OFFSET) \<and>
               insert_text grant t root_idx (c # text) = Inr (t1, False) \<and>
               populate_trie grant t root_idx ((c # text) # lines) = Inr (t1, False)))"
proof (intro conjI impI)
  assume full: "capacity t = INT32_MAX"
  then show a: "alloc_node grant t = Inl Exit_Failure"
    using assms(4,5) by (simp add: alloc_node_def)
  then show i: "insert_text grant t root_idx (c # text) = Inl Exit_Failure"
    using assms(1,2,3) by (simp add: Let_def)
  then show "populate_trie grant t root_idx ((c # text) # lines) = Inl Exit_Failure"
    by simp
next
  assume ng: "capacity t < INT32_MAX \<and>
          \<not> grant (if INT32_MAX - capacity t < INITIAL_POOL_CAP then INT32_MAX
                    else capacity t + INITIAL_POOL_CAP)"
  have eq: "capacity t + (if INT32_MAX - capacity t < INITIAL_POOL_CAP
                          then INT32_MAX - capacity t else INITIAL_POOL_CAP) =
            (if INT32_MAX - capacity t < INITIAL_POOL_CAP then INT32_MAX
             else capacity t + INITIAL_POOL_CAP)"
    by simp
  have "alloc_node grant t =
      Inr (t\<lparr>capacity := (if INT32_MAX - capacity t < INITIAL_POOL_CAP then INT32_MAX
                            else capacity t + INITIAL_POOL_CAP)\<rparr>, INVALID_OFFSET)"
    using assms(4,5) ng unfolding alloc_node_def Let_def eq by simp
  then obtain t1 where a: "alloc_node grant t = Inr (t1, INVALID_OFFSET)"
    by blast
  then have i: "insert_text grant t root_idx (c # text) = Inr (t1, False)"
    using assms(1,2,3) by (simp add: Let_def)
  then have "populate_trie grant t root_idx ((c # text) # lines) = Inr (t1, False)"
    by simp
  with a i show "\<exists>t1. alloc_node grant t = Inr (t1, INVALID_OFFSET) \<and>
               insert_text grant t root_idx (c # text) = Inr (t1, False) \<and>
               populate_trie grant t root_idx ((c # text) # lines) = Inr (t1, False)"
    by blast
qed

theorem capacity_exhausted_exits_witness:
  "in_pool (full_pool INT32_MAX) 0 \<and> capacity (full_pool INT32_MAX) = INT32_MAX \<and>
   alloc_node grant_all (full_pool INT32_MAX) = Inl Exit_Failure \<and>
   populate_trie grant_all (full_pool INT32_MAX) 0 [''a''] = Inl Exit_Failure \<and>
   in_pool (full_pool 2048) 0 \<and> capacity (full_pool 2048) < INT32_MAX \<and>
   (\<exists>t1. alloc_node (grant_upto 2048) (full_pool 2048) = Inr (t1, INVALID_OFFSET) \<and>
      insert_text (grant_upto 2048) (full_pool 2048) 0 ''a'' = Inr (t1, False) \<and>
      populate_trie (grant_upto 2048) (full_pool 2048) 0 [''a''] = Inr (t1, False))"
proof -
  have p1: "0 < INT32_MAX" "(0::int) < 2048" by (simp_all add: INT32_MAX_def)
  have c1: "capacity (full_pool INT32_MAX) \<le> count (full_pool INT32_MAX)"
    "0 \<le> capacity (full_pool INT32_MAX)" "capacity (full_pool INT32_MAX) = INT32_MAX"
    by (simp_all add: full_pool_def INT32_MAX_def)
  have c2: "capacity (full_pool 2048) \<le> count (full_pool 2048)"
    "0 \<le> capacity (full_pool 2048)"
    "capacity (full_pool 2048) < INT32_MAX \<and>
     \<not> grant_upto 2048 (if INT32_MAX - capacity (full_pool 2048) < INITIAL_POOL_CAP then INT32_MAX
                    else capacity (full_pool 2048) + INITIAL_POOL_CAP)"
    by (simp_all add: full_pool_def INT32_MAX_def INITIAL_POOL_CAP_def grant_upto_def)
  from capacity_exhausted_exits[OF full_pool_slot[OF p1(1)] c1(1,2), of grant_all "[]" "[]"]
    capacity_exhausted_exits[OF full_pool_slot[OF p1(2)] c2(1,2), of "grant_upto 2048" "[]" "[]"]
    c1(3) c2(3) full_pool_slot(1)[OF p1(1)] full_pool_slot(1)[OF p1(2)]
  show ?thesis by blast
qed

text \<open>With all \<open>INT32_MAX\<close> identifiers in use, an insertion that needs a node ends the
  process.\<close>

theorem capacity_exhausted_not_recoverable:
  "alloc_node grant_all (full_pool INT32_MAX) = Inl Exit_Failure \<and>
   insert_text grant_all (full_pool INT32_MAX) 0 ''a'' = Inl Exit_Failure"
proof -
  have p1: "0 < INT32_MAX" by (simp add: INT32_MAX_def)
  have a: "alloc_node grant_all (full_pool INT32_MAX) = Inl Exit_Failure"
    by (simp add: alloc_node_def full_pool_def INT32_MAX_def)
  with full_pool_slot[OF p1] show ?thesis by (simp add: Let_def)
qed


section \<open>The structural invariant\<close>

lemma pool_valid_slots: "pool_valid t \<Longrightarrow> slots_valid t"
  unfolding slots_valid_def pool_valid_def in_pool_def by blast

lemma set_terminal_valid:
  assumes "pool_valid t"
  shows "pool_valid (t\<lparr>pool := (pool t)(r := (pool t r)\<lparr>terminal := True\<rparr>)\<rparr>)"
proof -
  have ch: "\<And>i. children (pool (t\<lparr>pool := (pool t)(r := (pool t r)\<lparr>terminal := True\<rparr>)\<rparr>) i) =
      children (pool t i)"
    by simp
  show ?thesis
    unfolding pool_valid_def ch using assms[unfolded pool_valid_def] by simp
qed

lemma insert_text_valid:
  "pool_valid t \<Longrightarrow> insert_text grant t r w = Inr (t', ok) \<Longrightarrow> pool_valid t'"
proof (induction w arbitrary: t r)
  case Nil
  then have "t' = t\<lparr>pool := (pool t)(r := (pool t r)\<lparr>terminal := True\<rparr>)\<rparr>"
    by (auto split: if_splits)
  then show ?case using set_terminal_valid[OF Nil.prems(1)] by simp
next
  case (Cons c w)
  define idx where "idx = slot_of c"
  note pv = Cons.prems(1)
  from Cons.prems(2) have r: "in_pool t r" and idx: "slot_ok idx"
    by (auto simp: idx_def Let_def split: if_splits)
  show ?case
  proof (cases "child t r idx = INVALID_OFFSET")
    case absent: True
    from Cons.prems(2) absent r idx obtain t1 tmp where al: "alloc_node grant t = Inr (t1, tmp)"
      by (auto simp: idx_def[symmetric] Let_def split: sum.splits)
    show ?thesis
    proof (cases "tmp = INVALID_OFFSET")
      case True
      with Cons.prems(2) absent r idx al have "t' = t1"
        by (auto simp: idx_def[symmetric] Let_def)
      then show ?thesis using alloc_node_valid[OF al pv] by simp
    next
      case False
      have ins: "insert_text grant (set_child t1 r idx tmp)
                   (child (set_child t1 r idx tmp) r idx) w = Inr (t', ok)"
        using Cons.prems(2) absent r idx al False
        by (auto simp: idx_def[symmetric] Let_def)
      from Cons.IH[OF set_child_valid[OF al False pv r idx] ins] show ?thesis .
    qed
  next
    case present: False
    have ins: "insert_text grant t (child t r idx) w = Inr (t', ok)"
      using Cons.prems(2) present r idx by (auto simp: idx_def[symmetric] Let_def)
    from Cons.IH[OF pv ins] show ?thesis .
  qed
qed

lemma populate_trie_valid:
  "pool_valid t \<Longrightarrow> populate_trie grant t r ws = Inr (t', ok) \<Longrightarrow> pool_valid t'"
proof (induction ws arbitrary: t)
  case Nil
  then show ?case by simp
next
  case (Cons l ls)
  from Cons.prems(2) obtain t1 ok1 where i: "insert_text grant t r l = Inr (t1, ok1)"
    by (auto split: sum.splits)
  note pv1 = insert_text_valid[OF Cons.prems(1) i]
  show ?case
  proof (cases ok1)
    case True
    with Cons.prems(2) i have "populate_trie grant t1 r ls = Inr (t', ok)" by simp
    from Cons.IH[OF pv1 this] show ?thesis .
  next
    case False
    with Cons.prems(2) i have "t' = t1" by simp
    with pv1 show ?thesis by simp
  qed
qed

text \<open>
  C8. The structural invariant \<open>pool_valid\<close> (the counters are ordered, every node in
  use has its \<open>CHILDREN_COUNT\<close> slots, and every slot of a node in use is
  \<open>INVALID_OFFSET\<close> or an identifier in \<open>[0, count)\<close>) holds for the pool that
  \<open>init_pool\<close> leaves and is kept by every operation that changes the trie:
  \<open>alloc_node\<close>, \<open>insert_text\<close> and \<open>populate_trie\<close>, whether they report success or
  failure. Descent, traversal and export only read the trie. So in every state a run
  reaches, each slot is absent or a valid identifier in use.
\<close>

theorem slots_invariant:
  assumes "pool_valid t"
  shows "pool_valid (fst (init_pool grant (Trie_static mem))) \<and>
         (alloc_node grant t = Inr (t1, r) \<longrightarrow> pool_valid t1 \<and> slots_valid t1) \<and>
         (insert_text grant t root_idx w = Inr (t2, ok2) \<longrightarrow> pool_valid t2 \<and> slots_valid t2) \<and>
         (populate_trie grant t root_idx ws = Inr (t3, ok3) \<longrightarrow> pool_valid t3 \<and> slots_valid t3) \<and>
         slots_valid t"
proof (intro conjI impI)
  show "pool_valid (fst (init_pool grant (Trie_static mem)))"
    by (simp add: init_pool_def Trie_static_def pool_valid_def INITIAL_POOL_CAP_def INT32_MAX_def)
  show "slots_valid t" by (rule pool_valid_slots[OF assms])
next
  assume a: "alloc_node grant t = Inr (t1, r)"
  show "pool_valid t1" by (rule alloc_node_valid[OF a assms])
  then show "slots_valid t1" by (rule pool_valid_slots)
next
  assume a: "insert_text grant t root_idx w = Inr (t2, ok2)"
  show "pool_valid t2" by (rule insert_text_valid[OF assms a])
  then show "slots_valid t2" by (rule pool_valid_slots)
next
  assume a: "populate_trie grant t root_idx ws = Inr (t3, ok3)"
  show "pool_valid t3" by (rule populate_trie_valid[OF assms a])
  then show "slots_valid t3" by (rule pool_valid_slots)
qed

theorem slots_invariant_witness:
  "pool_valid root_trie \<and>
   insert_text grant_all root_trie 0 ''cat'' = Inr (cat_trie, True) \<and>
   populate_trie grant_all cat_trie 0 [''car''] = Inr (cat_car_trie, True) \<and>
   pool_valid cat_trie \<and> slots_valid cat_trie \<and> pool_valid cat_car_trie \<and> slots_valid cat_car_trie"
proof -
  have pv: "pool_valid root_trie" using root_trie_props by (simp add: tree_inv_def)
  note ins = conjunct1[OF cat_trie_insert]
  from slots_invariant[OF pv, of grant_all blank _ _ 0 "''cat''" cat_trie True] ins
  have pv1: "pool_valid cat_trie" "slots_valid cat_trie" by simp_all
  from slots_invariant[OF pv1(1), of grant_all blank _ _ 0 _ _ _ "[''car'']" cat_car_trie True]
    cat_car_trie_populate
  have "pool_valid cat_car_trie" "slots_valid cat_car_trie" by simp_all
  with pv ins cat_car_trie_populate pv1 show ?thesis by simp
qed


section \<open>The path buffer after a descent\<close>

lemma matched_prefix: "prefix (matched t n P) P"
  by (induction P arbitrary: n) auto

lemma matched_walk:
  "walk t n u = Some m \<Longrightarrow> matched t n (u @ v) = u @ matched t m v"
  by (induction u arbitrary: n) (auto split: if_splits)

text \<open>
  C10 as the code has it. For a prefix over the alphabet, from a node of a valid pool,
  \<open>find_prefix\<close> returns with the matched bytes appended to the buffer, as long as they
  fit into what is left of \<open>ac_buffer\<close>: the
  buffer holds its old contents followed by the bytes of the prefix for which a child
  was present. It returns \<open>INVALID_OFFSET\<close> exactly when that is not the whole prefix,
  and then the buffer still holds the bytes matched before the absent slot.
\<close>

theorem find_prefix_buffer:
  assumes "pool_valid t" and "in_pool t root_idx" and "alphabet P"
    and "ac_buffer_sz b + length (matched t root_idx P) \<le> AC_BUFFER_CAP"
  shows "\<exists>r b'. find_prefix t root_idx P b = Inr (r, b') \<and>
           ac_contents b' = ac_contents b @ matched t root_idx P \<and>
           ac_buffer_sz b' = ac_buffer_sz b + length (matched t root_idx P) \<and>
           prefix (matched t root_idx P) P \<and>
           (r = INVALID_OFFSET \<longleftrightarrow> matched t root_idx P \<noteq> P)"
  using assms(2,3,4)
proof (induction P arbitrary: root_idx b)
  case Nil
  then show ?case by (auto simp: in_pool_def INVALID_OFFSET_def)
next
  case (Cons c P)
  note pv = assms(1)
  have idx: "slot_ok (slot_of c)" and al: "alphabet P"
    using Cons.prems(2) by (simp_all add: alphabet_def)
  show ?case
  proof (cases "child t root_idx (slot_of c) = INVALID_OFFSET")
    case True
    then show ?thesis using Cons.prems(1) idx by (simp add: Let_def)
  next
    case False
    let ?n = "child t root_idx (slot_of c)"
    have n: "in_pool t ?n" by (rule pool_valid_child[OF pv Cons.prems(1) idx False])
    have m: "matched t root_idx (c # P) = c # matched t ?n P" using False by simp
    have lt: "ac_buffer_sz b < AC_BUFFER_CAP" using Cons.prems(3) m by simp
    from ac_buffer_push_Inr[OF lt, of c] obtain b1 where b1: "ac_buffer_push b c = Inr b1"
      "ac_buffer_sz b1 = ac_buffer_sz b + 1" "ac_contents b1 = ac_contents b @ [c]" by auto
    have "ac_buffer_sz b1 + length (matched t ?n P) \<le> AC_BUFFER_CAP"
      using Cons.prems(3) m b1(2) by simp
    from Cons.IH[OF n al this] obtain r b' where
      "find_prefix t ?n P b1 = Inr (r, b')"
      "ac_contents b' = ac_contents b1 @ matched t ?n P"
      "ac_buffer_sz b' = ac_buffer_sz b1 + length (matched t ?n P)"
      "r = INVALID_OFFSET \<longleftrightarrow> matched t ?n P \<noteq> P" by blast
    then show ?thesis
      using False Cons.prems(1) idx b1 m matched_prefix[of t ?n P] by (simp add: Let_def)
  qed
qed

lemma cat_trie_build: "build grant_all blank [''cat''] = Inr (Some (cat_trie, 0))"
  by (simp add: build_def start_init root_alloc conjunct1[OF cat_trie_insert] INVALID_OFFSET_def
      del: insert_text.simps)

lemma cat_trie_matched: "matched cat_trie 0 ''cab'' = ''ca''"
proof -
  note bs = build_spec[OF cat_trie_build]
  then have pv: "pool_valid cat_trie" and in0: "in_pool cat_trie 0"
    and pa: "paths_in cat_trie 0 (set [''cat''])"
    and acc: "accepts cat_trie 0 ''cat''"
    by (simp_all add: tree_inv_def del: walk.simps)
  have "accepts cat_trie 0 (''ca'' @ ''t'')" using acc by simp
  then obtain m where m: "walk cat_trie 0 ''ca'' = Some m" using accepts_prefix_walk by blast
  have mi: "in_pool cat_trie m" by (rule walk_in_pool[OF pv in0 m])
  have nw: "walk cat_trie 0 (''ca'' @ ''b'') = None"
  proof (cases "walk cat_trie 0 (''ca'' @ ''b'')")
    case (Some x)
    from pa[unfolded paths_in_def, rule_format, OF Some]
    have False by simp
    then show ?thesis ..
  qed simp
  have "walk cat_trie 0 (''ca'' @ ''b'') = walk cat_trie m ''b''"
    unfolding walk_append m by simp
  with nw have "walk cat_trie m ''b'' = None" by simp
  then have "child cat_trie m (slot_of (CHR ''b'')) = INVALID_OFFSET"
    using mi by (simp add: slot_ok_def slot_of_def ASCII_OFFSET_def CHILDREN_COUNT_def split: if_splits)
  then have "matched cat_trie m ''b'' = []" by simp
  with matched_walk[OF m, of "''b''"] show ?thesis by simp
qed

theorem find_prefix_buffer_witness:
  "pool_valid cat_trie \<and> in_pool cat_trie 0 \<and> alphabet ''cab'' \<and>
   ac_buffer_sz ac_static + length (matched cat_trie 0 ''cab'') \<le> AC_BUFFER_CAP \<and>
   (\<exists>b'. find_prefix cat_trie 0 ''cab'' ac_static = Inr (INVALID_OFFSET, b') \<and>
      ac_contents b' = ''ca'' \<and> ac_buffer_sz b' = 2)"
proof -
  note bs = build_spec[OF cat_trie_build]
  then have pv: "pool_valid cat_trie" and in0: "in_pool cat_trie 0"
    by (simp_all add: tree_inv_def del: walk.simps)
  have al: "alphabet ''cab''"
    by (simp add: alphabet_def slot_ok_def slot_of_def ASCII_OFFSET_def CHILDREN_COUNT_def)
  have fit: "ac_buffer_sz ac_static + length (matched cat_trie 0 ''cab'') \<le> AC_BUFFER_CAP"
    unfolding cat_trie_matched by (simp add: ac_contents_static AC_BUFFER_CAP_def)
  from find_prefix_buffer[OF pv in0 al fit] obtain r b' where
    f: "find_prefix cat_trie 0 ''cab'' ac_static = Inr (r, b')"
    and c: "ac_contents b' = ac_contents ac_static @ matched cat_trie 0 ''cab''"
    and z: "ac_buffer_sz b' = ac_buffer_sz ac_static + length (matched cat_trie 0 ''cab'')"
    and i: "r = INVALID_OFFSET \<longleftrightarrow> matched cat_trie 0 ''cab'' \<noteq> ''cab''" by blast
  have "r = INVALID_OFFSET" using i[unfolded cat_trie_matched] by simp
  moreover have "ac_contents b' = ''ca''" using c[unfolded cat_trie_matched]
    by (simp add: ac_contents_static)
  moreover have "ac_buffer_sz b' = 2" using z[unfolded cat_trie_matched]
    by (simp add: ac_contents_static)
  ultimately have "\<exists>b'. find_prefix cat_trie 0 ''cab'' ac_static = Inr (INVALID_OFFSET, b') \<and>
      ac_contents b' = ''ca'' \<and> ac_buffer_sz b' = 2"
    using f by blast
  with pv in0 al fit show ?thesis by blast
qed

lemma find_prefix_overflow_app:
  "walk t n u = Some m \<Longrightarrow> AC_BUFFER_CAP < ac_buffer_sz b + length u \<Longrightarrow>
     ac_buffer_sz b \<le> AC_BUFFER_CAP \<Longrightarrow> find_prefix t n (u @ v) b = Inl Out_Of_Bounds"
proof (induction u arbitrary: n b)
  case Nil
  then show ?case by simp
next
  case (Cons c u)
  from Cons.prems(1) have ok: "in_pool t n" "slot_ok (slot_of c)"
    "child t n (slot_of c) \<noteq> INVALID_OFFSET"
    and w: "walk t (child t n (slot_of c)) u = Some m"
    by (auto split: if_splits)
  show ?case
  proof (cases "ac_buffer_sz b < AC_BUFFER_CAP")
    case True
    from ac_buffer_push_Inr[OF this, of c] obtain b1 where b1: "ac_buffer_push b c = Inr b1"
      "ac_buffer_sz b1 = ac_buffer_sz b + 1" by auto
    have "AC_BUFFER_CAP < ac_buffer_sz b1 + length u" "ac_buffer_sz b1 \<le> AC_BUFFER_CAP"
      using Cons.prems(2) True b1(2) by simp_all
    from Cons.IH[OF w this] b1 ok show ?thesis by (simp add: Let_def)
  next
    case False
    then show ?thesis using ok ac_buffer_push_full[OF False] by (simp add: Let_def)
  qed
qed

text \<open>
  A word of \<open>AC_BUFFER_CAP + 1\<close> bytes is inserted; descent on that word followed by
  \<open>b\<close>, which has no path, does not return \<open>INVALID_OFFSET\<close> with the matched bytes in
  the buffer: it writes past the end of \<open>ac_buffer\<close> at the last matched byte.
\<close>

theorem find_prefix_buffer_overflow:
  "insert_text grant_all root_trie 0 long_word = Inr (long_trie, True) \<and>
   pool_valid long_trie \<and> in_pool long_trie 0 \<and> alphabet (long_word @ ''b'') \<and>
   find_prefix long_trie 0 (long_word @ ''b'') ac_static = Inl Out_Of_Bounds"
proof -
  from long_trie_walk obtain m where ti: "tree_inv long_trie" and in0: "in_pool long_trie 0"
    and w: "walk long_trie 0 long_word = Some m" by blast
  have pv: "pool_valid long_trie" using ti by (simp add: tree_inv_def)
  have al: "alphabet (long_word @ ''b'')"
    using long_word_props(1)
    by (simp add: alphabet_def slot_ok_def slot_of_def ASCII_OFFSET_def CHILDREN_COUNT_def)
  have "AC_BUFFER_CAP < ac_buffer_sz ac_static + length long_word"
    by (simp add: long_word_props(2) ac_contents_static AC_BUFFER_CAP_def)
  from find_prefix_overflow_app[OF w this, of "''b''"]
  have "find_prefix long_trie 0 (long_word @ ''b'') ac_static = Inl Out_Of_Bounds"
    by (simp add: ac_contents_static)
  with long_trie_insert pv in0 al show ?thesis by blast
qed

section \<open>Graph export\<close>

lemma dump_dot_whole_fold:
  "dump_dot_whole t sink =
     fold (\<lambda>i r. fold (dw_inner t i) [0..<CHILDREN_COUNT] r) [0..<nat (count t)] (Inr sink)"
proof -
  have "dw_inner t = (\<lambda>i j r1.
                   case r1 of
                     Inr sink1 \<Rightarrow>
                       if \<not> in_pool t (int i) then Inl Out_Of_Bounds
                       else if child t (int i) (int j) \<noteq> INVALID_OFFSET then
                         (if \<not> in_pool t (child t (int i) (int j)) then Inl Out_Of_Bounds
                          else Inr (sink1 @ dot_lines t (int i) j))
                       else r1
                   | _ \<Rightarrow> r1)"
    by (intro ext) (simp add: dw_inner_def)
  then show ?thesis unfolding dump_dot_whole_def by simp
qed

lemma dump_dot_prefix_Suc:
  "dump_dot_prefix (Suc fuel) t root_idx sink =
     (if \<not> in_pool t root_idx then Some (Inl Out_Of_Bounds)
      else fold (dp_step fuel t root_idx) [0..<CHILDREN_COUNT] (Some (Inr sink)))"
proof -
  have "dp_step fuel t root_idx = (\<lambda>i r.
               case r of
                 Some (Inr sink1) \<Rightarrow>
                   if child t root_idx (int i) \<noteq> INVALID_OFFSET then
                     (if \<not> in_pool t (child t root_idx (int i)) then Some (Inl Out_Of_Bounds)
                      else dump_dot_prefix fuel t (child t root_idx (int i))
                             (sink1 @ dot_lines t root_idx i))
                   else r
               | _ \<Rightarrow> r)"
    by (intro ext) (simp add: dp_step_def)
  then show ?thesis by simp
qed

lemma edges_dot_lines: "length (filter is_edge (dot_lines t r i)) = 1"
  by (simp add: dot_lines_def Let_def)

lemma present_slots_Suc:
  "{k. k < Suc j \<and> k \<in> present_slots t m} =
     (if j \<in> present_slots t m then insert j {k. k < j \<and> k \<in> present_slots t m}
      else {k. k < j \<and> k \<in> present_slots t m})"
  by (auto simp: less_Suc_eq)

lemma present_slots_all: "{k. k < CHILDREN_COUNT \<and> k \<in> present_slots t m} = present_slots t m"
  by (auto simp: present_slots_def)

lemma finite_below: "finite {k. k < (j::nat) \<and> P k}"
  by simp

lemma child_present:
  "j < CHILDREN_COUNT \<Longrightarrow> child t m (int j) \<noteq> INVALID_OFFSET \<longleftrightarrow> j \<in> present_slots t m"
  by (simp add: child_def present_slots_def)

lemma dw_inner_fold:
  assumes pv: "pool_valid t" and i: "in_pool t (int i)"
  shows "j \<le> CHILDREN_COUNT \<Longrightarrow>
    \<exists>es. fold (dw_inner t i) [0..<j] (Inr sink) = Inr (sink @ es) \<and>
      length (filter is_edge es) = card {k. k < j \<and> k \<in> present_slots t (int i)}"
proof (induction j)
  case 0
  show ?case by simp
next
  case (Suc j)
  then have j: "j < CHILDREN_COUNT" by simp
  from Suc obtain es where f: "fold (dw_inner t i) [0..<j] (Inr sink) = Inr (sink @ es)"
    and n: "length (filter is_edge es) = card {k. k < j \<and> k \<in> present_slots t (int i)}"
    by auto
  have fold_eq: "fold (dw_inner t i) [0..<Suc j] (Inr sink) = dw_inner t i j (Inr (sink @ es))"
    using f by simp
  show ?case
  proof (cases "j \<in> present_slots t (int i)")
    case True
    then have ne: "child t (int i) (int j) \<noteq> INVALID_OFFSET" using child_present[OF j, of t "int i"] by simp
    have sj: "slot_ok (int j)" using j by (simp add: slot_ok_def)
    have "in_pool t (child t (int i) (int j))" by (rule pool_valid_child[OF pv i sj ne])
    then have "dw_inner t i j (Inr (sink @ es)) = Inr (sink @ (es @ dot_lines t (int i) j))"
      using i ne by (simp add: dw_inner_def)
    moreover have "card {k. k < Suc j \<and> k \<in> present_slots t (int i)} =
        Suc (card {k. k < j \<and> k \<in> present_slots t (int i)})"
      unfolding present_slots_Suc using True by simp
    ultimately show ?thesis unfolding fold_eq using n by (simp add: edges_dot_lines)
  next
    case False
    then have "child t (int i) (int j) = INVALID_OFFSET" using child_present[OF j, of t "int i"] by simp
    then have "dw_inner t i j (Inr (sink @ es)) = Inr (sink @ es)"
      using i by (simp add: dw_inner_def)
    moreover have "card {k. k < Suc j \<and> k \<in> present_slots t (int i)} =
        card {k. k < j \<and> k \<in> present_slots t (int i)}"
      unfolding present_slots_Suc using False by simp
    ultimately show ?thesis unfolding fold_eq using n by simp
  qed
qed

lemma dw_outer_fold:
  assumes pv: "pool_valid t"
  shows "n \<le> nat (count t) \<Longrightarrow>
    \<exists>es. fold (\<lambda>i r. fold (dw_inner t i) [0..<CHILDREN_COUNT] r) [0..<n] (Inr sink) = Inr (sink @ es) \<and>
      length (filter is_edge es) = (\<Sum>i<n. card (present_slots t (int i)))"
proof (induction n)
  case 0
  show ?case by simp
next
  case (Suc n)
  then obtain es where
    f: "fold (\<lambda>i r. fold (dw_inner t i) [0..<CHILDREN_COUNT] r) [0..<n] (Inr sink) = Inr (sink @ es)"
    and c: "length (filter is_edge es) = (\<Sum>i<n. card (present_slots t (int i)))"
    by auto
  have i: "in_pool t (int n)" using Suc.prems pv by (simp add: in_pool_valid)
  from dw_inner_fold[OF pv i order_refl, of "sink @ es"] obtain es' where
    f': "fold (dw_inner t n) [0..<CHILDREN_COUNT] (Inr (sink @ es)) = Inr ((sink @ es) @ es')"
    and c': "length (filter is_edge es') = card (present_slots t (int n))"
    unfolding present_slots_all by blast
  have "fold (\<lambda>i r. fold (dw_inner t i) [0..<CHILDREN_COUNT] r) [0..<Suc n] (Inr sink) =
      Inr (sink @ (es @ es'))"
    using f f' by simp
  moreover have "length (filter is_edge (es @ es')) = (\<Sum>i<Suc n. card (present_slots t (int i)))"
    using c c' by simp
  ultimately show ?case by blast
qed


subsection \<open>reachable nodes\<close>

lemma present_slotsD:
  "k \<in> present_slots t m \<Longrightarrow>
     k < CHILDREN_COUNT \<and> slot_ok (int k) \<and> child t m (int k) = children (pool t m) ! k \<and>
     child t m (int k) \<noteq> INVALID_OFFSET"
  by (simp add: present_slots_def slot_ok_def child_def)

lemma finite_present_slots: "finite (present_slots t m)"
  by (simp add: present_slots_def)

lemma reach_walk: "m \<in> reach t R \<longleftrightarrow> (\<exists>w. walk t R w = Some m)"
proof
  assume "m \<in> reach t R"
  then show "\<exists>w. walk t R w = Some m"
  proof (induction rule: reach.induct)
    case reach_root
    have "walk t R [] = Some R" by simp
    then show ?case by blast
  next
    case (reach_child m k)
    then obtain w where w: "walk t R w = Some m" by blast
    note k = present_slotsD[OF reach_child.hyps(3)]
    have "walk t R (w @ [label_of k]) = Some (children (pool t m) ! k)"
      unfolding walk_snoc using w reach_child.hyps(2) k by (simp add: slot_of_label)
    then show ?case by blast
  qed
next
  assume "\<exists>w. walk t R w = Some m"
  then obtain w where "walk t R w = Some m" by blast
  then show "m \<in> reach t R"
  proof (induction w arbitrary: m rule: rev_induct)
    case Nil
    then show ?case by (simp add: reach_root)
  next
    case (snoc c w)
    from snoc.prems obtain p where p: "walk t R w = Some p" "in_pool t p"
      "slot_ok (slot_of c)" "child t p (slot_of c) \<noteq> INVALID_OFFSET" "child t p (slot_of c) = m"
      unfolding walk_snoc by blast
    have "nat (slot_of c) \<in> present_slots t p"
      using p(3,4) by (simp add: present_slots_def child_def slot_okD)
    from reach_child[OF snoc.IH[OF p(1)] p(2) this] p(5) show ?case by (simp add: child_def)
  qed
qed

lemma reach_in_pool:
  "pool_valid t \<Longrightarrow> in_pool t R \<Longrightarrow> m \<in> reach t R \<Longrightarrow> in_pool t m"
  unfolding reach_walk using walk_in_pool by blast

lemma finite_reach:
  assumes "pool_valid t" "in_pool t R"
  shows "finite (reach t R)"
proof -
  have "reach t R \<subseteq> {0..<count t}"
    using reach_in_pool[OF assms] by (auto simp: in_pool_def)
  then show ?thesis by (rule finite_subset) simp
qed

lemma reach_unfold:
  assumes n: "in_pool t n"
  shows "reach t n = insert n (\<Union>k\<in>present_slots t n. reach t (children (pool t n) ! k))"
proof (intro set_eqI iffI)
  fix m assume "m \<in> reach t n"
  then obtain w where w: "walk t n w = Some m" unfolding reach_walk by blast
  show "m \<in> insert n (\<Union>k\<in>present_slots t n. reach t (children (pool t n) ! k))"
  proof (cases w)
    case Nil
    then show ?thesis using w by simp
  next
    case (Cons c w')
    with w have c: "slot_ok (slot_of c)" "child t n (slot_of c) \<noteq> INVALID_OFFSET"
      and w': "walk t (child t n (slot_of c)) w' = Some m"
      by (auto split: if_splits)
    have "nat (slot_of c) \<in> present_slots t n"
      using c by (simp add: present_slots_def child_def slot_okD)
    moreover have "m \<in> reach t (children (pool t n) ! nat (slot_of c))"
      unfolding reach_walk using w' by (auto simp: child_def)
    ultimately show ?thesis by blast
  qed
next
  fix m assume "m \<in> insert n (\<Union>k\<in>present_slots t n. reach t (children (pool t n) ! k))"
  then consider "m = n" | k where "k \<in> present_slots t n" "m \<in> reach t (children (pool t n) ! k)"
    by blast
  then show "m \<in> reach t n"
  proof cases
    case 1
    then show ?thesis by (simp add: reach_root)
  next
    case 2
    then obtain w where w: "walk t (children (pool t n) ! k) w = Some m"
      unfolding reach_walk by blast
    note k = present_slotsD[OF 2(1)]
    have "walk t n (label_of k # w) = Some m"
      using walk_label[OF n] k w by simp
    then show ?thesis unfolding reach_walk by blast
  qed
qed

lemma reach_not_self:
  assumes ti: "tree_inv t" and n: "in_pool t n" and k: "k \<in> present_slots t n"
  shows "n \<notin> reach t (children (pool t n) ! k)"
proof
  assume "n \<in> reach t (children (pool t n) ! k)"
  then obtain w where "walk t (children (pool t n) ! k) w = Some n"
    unfolding reach_walk by blast
  from walk_mono[OF ti this] have "children (pool t n) ! k \<le> n" .
  moreover have "n < children (pool t n) ! k"
    using tree_inv_child_gt[OF ti n, of "int k"] present_slotsD[OF k] by simp
  ultimately show False by simp
qed

lemma label_of_inj: "i < CHILDREN_COUNT \<Longrightarrow> j < CHILDREN_COUNT \<Longrightarrow> label_of i = label_of j \<Longrightarrow> i = j"
  using slot_of_label by (metis of_nat_eq_iff)

lemma reach_disjoint:
  assumes ti: "tree_inv t" and n: "in_pool t n"
    and k: "k \<in> present_slots t n" and k': "k' \<in> present_slots t n" and ne: "k \<noteq> k'"
  shows "reach t (children (pool t n) ! k) \<inter> reach t (children (pool t n) ! k') = {}"
proof (rule ccontr)
  assume "reach t (children (pool t n) ! k) \<inter> reach t (children (pool t n) ! k') \<noteq> {}"
  then obtain m where "m \<in> reach t (children (pool t n) ! k)"
    "m \<in> reach t (children (pool t n) ! k')" by blast
  then obtain w w' where w: "walk t (children (pool t n) ! k) w = Some m"
    and w': "walk t (children (pool t n) ! k') w' = Some m"
    unfolding reach_walk by blast
  note a = present_slotsD[OF k] and b = present_slotsD[OF k']
  have "walk t n (label_of k # w) = Some m" using walk_label[OF n] a w by simp
  moreover have "walk t n (label_of k' # w') = Some m" using walk_label[OF n] b w' by simp
  ultimately have "label_of k # w = label_of k' # w'" by (rule walk_inj[OF ti n])
  then have "k = k'" using label_of_inj a b by simp
  with ne show False by simp
qed

lemma slot_total_unfold:
  assumes ti: "tree_inv t" and n: "in_pool t n"
  shows "slot_total t n = card (present_slots t n) +
           (\<Sum>k\<in>present_slots t n. slot_total t (children (pool t n) ! k))"
proof -
  have pv: "pool_valid t" using ti by (simp add: tree_inv_def)
  let ?ch = "\<lambda>k. children (pool t n) ! k"
  let ?U = "\<Union>k\<in>present_slots t n. reach t (?ch k)"
  have cin: "\<And>k. k \<in> present_slots t n \<Longrightarrow> in_pool t (?ch k)"
    using pool_valid_child[OF pv n] present_slotsD by metis
  have fin: "\<forall>k\<in>present_slots t n. finite (reach t (?ch k))"
    using finite_reach[OF pv cin] by blast
  have dis: "\<forall>k\<in>present_slots t n. \<forall>k'\<in>present_slots t n. k \<noteq> k' \<longrightarrow>
      reach t (?ch k) \<inter> reach t (?ch k') = {}"
    using reach_disjoint[OF ti n] by blast
  have notin: "n \<notin> ?U" using reach_not_self[OF ti n] by blast
  have finU: "finite ?U" using fin finite_present_slots by blast
  have "slot_total t n = (\<Sum>m\<in>insert n ?U. card (present_slots t m))"
    unfolding slot_total_def reach_unfold[OF n] ..
  also have "\<dots> = card (present_slots t n) + (\<Sum>m\<in>?U. card (present_slots t m))"
    using finU notin by simp
  also have "(\<Sum>m\<in>?U. card (present_slots t m)) =
      (\<Sum>k\<in>present_slots t n. \<Sum>m\<in>reach t (?ch k). card (present_slots t m))"
    by (rule sum.UNION_disjoint[OF finite_present_slots fin dis])
  finally show ?thesis unfolding slot_total_def .
qed


subsection \<open>subtree export\<close>

lemma dp_fold:
  assumes ti: "tree_inv t" and n: "in_pool t n"
    and IH: "\<And>c s. in_pool t c \<Longrightarrow> n < c \<Longrightarrow>
      \<exists>es. dump_dot_prefix fuel t c s = Some (Inr (s @ es)) \<and>
        length (filter is_edge es) = slot_total t c"
  shows "j \<le> CHILDREN_COUNT \<Longrightarrow>
    \<exists>es. fold (dp_step fuel t n) [0..<j] (Some (Inr sink)) = Some (Inr (sink @ es)) \<and>
      length (filter is_edge es) =
        (\<Sum>k\<in>{k. k < j \<and> k \<in> present_slots t n}. 1 + slot_total t (children (pool t n) ! k))"
proof (induction j)
  case 0
  show ?case by simp
next
  case (Suc j)
  then have j: "j < CHILDREN_COUNT" by simp
  have pv: "pool_valid t" using ti by (simp add: tree_inv_def)
  from Suc obtain es where
    f: "fold (dp_step fuel t n) [0..<j] (Some (Inr sink)) = Some (Inr (sink @ es))"
    and c: "length (filter is_edge es) =
        (\<Sum>k\<in>{k. k < j \<and> k \<in> present_slots t n}. 1 + slot_total t (children (pool t n) ! k))"
    by auto
  have fold_eq: "fold (dp_step fuel t n) [0..<Suc j] (Some (Inr sink)) =
      dp_step fuel t n j (Some (Inr (sink @ es)))"
    using f by simp
  show ?case
  proof (cases "j \<in> present_slots t n")
    case True
    note k = present_slotsD[OF True]
    have c_in: "in_pool t (child t n (int j))"
      using pool_valid_child[OF pv n] k by blast
    have c_gt: "n < child t n (int j)"
      using tree_inv_child_gt[OF ti n] k by blast
    from IH[OF c_in c_gt, of "(sink @ es) @ dot_lines t n j"] obtain es' where
      r: "dump_dot_prefix fuel t (child t n (int j)) ((sink @ es) @ dot_lines t n j) =
            Some (Inr (((sink @ es) @ dot_lines t n j) @ es'))"
      and c': "length (filter is_edge es') = slot_total t (child t n (int j))" by blast
    have "dp_step fuel t n j (Some (Inr (sink @ es))) =
        Some (Inr (sink @ (es @ dot_lines t n j @ es')))"
      using k c_in r by (simp add: dp_step_def)
    moreover have "(\<Sum>k\<in>{k. k < Suc j \<and> k \<in> present_slots t n}.
          1 + slot_total t (children (pool t n) ! k)) =
        (1 + slot_total t (children (pool t n) ! j)) +
        (\<Sum>k\<in>{k. k < j \<and> k \<in> present_slots t n}. 1 + slot_total t (children (pool t n) ! k))"
      unfolding present_slots_Suc using True by simp
    ultimately show ?thesis
      unfolding fold_eq using c c' k by (simp add: edges_dot_lines)
  next
    case False
    then have "child t n (int j) = INVALID_OFFSET" using child_present[OF j, of t n] by simp
    then have "dp_step fuel t n j (Some (Inr (sink @ es))) = Some (Inr (sink @ es))"
      by (simp add: dp_step_def)
    moreover have "{k. k < Suc j \<and> k \<in> present_slots t n} = {k. k < j \<and> k \<in> present_slots t n}"
      unfolding present_slots_Suc using False by simp
    ultimately show ?thesis unfolding fold_eq using c by simp
  qed
qed

lemma dp_correct:
  assumes ti: "tree_inv t"
  shows "in_pool t n \<Longrightarrow> nat (count t - n) \<le> fuel \<Longrightarrow>
    \<exists>es. dump_dot_prefix fuel t n sink = Some (Inr (sink @ es)) \<and>
      length (filter is_edge es) = slot_total t n"
proof (induction fuel arbitrary: n sink)
  case 0
  then show ?case by (simp add: in_pool_def)
next
  case (Suc fuel)
  have IH: "\<And>c s. in_pool t c \<Longrightarrow> n < c \<Longrightarrow>
      \<exists>es. dump_dot_prefix fuel t c s = Some (Inr (s @ es)) \<and>
        length (filter is_edge es) = slot_total t c"
  proof -
    fix c :: int and s :: "dot_stmt list" assume c: "in_pool t c" "n < c"
    have "nat (count t - c) \<le> fuel" using Suc.prems(2) c unfolding in_pool_def by linarith
    from Suc.IH[OF c(1) this]
    show "\<exists>es. dump_dot_prefix fuel t c s = Some (Inr (s @ es)) \<and>
        length (filter is_edge es) = slot_total t c" .
  qed
  from dp_fold[OF ti Suc.prems(1) IH order_refl, of sink] obtain es where
    f: "fold (dp_step fuel t n) [0..<CHILDREN_COUNT] (Some (Inr sink)) = Some (Inr (sink @ es))"
    and c: "length (filter is_edge es) =
        (\<Sum>k\<in>present_slots t n. 1 + slot_total t (children (pool t n) ! k))"
    unfolding present_slots_all by blast
  have "(\<Sum>k\<in>present_slots t n. 1 + slot_total t (children (pool t n) ! k)) = slot_total t n"
    unfolding slot_total_unfold[OF ti Suc.prems(1)] by (simp add: sum_Suc)
  with f c Suc.prems(1) show ?case unfolding dump_dot_prefix_Suc by simp
qed

text \<open>
  C7. In a well-formed trie both exports run to their end. The whole-tree export
  appends as many edge statements as there are present child slots in the nodes in
  use, that is in the cells below \<open>count\<close>. The subtree export from a node in use
  (given fuel for as many nested calls as there are nodes) appends as many edge
  statements as there are present child slots in the nodes reachable from that node.
\<close>

theorem dot_edges_complete:
  assumes "tree_inv t" and "in_pool t root_idx" and "nat (count t) \<le> fuel"
  shows "(\<exists>out. dump_dot_whole t sink = Inr (sink @ out) \<and>
            length (filter is_edge out) = (\<Sum>i<nat (count t). card (present_slots t (int i)))) \<and>
         (\<exists>out. dump_dot_prefix fuel t root_idx sink = Some (Inr (sink @ out)) \<and>
            length (filter is_edge out) = (\<Sum>m\<in>reach t root_idx. card (present_slots t m)))"
proof
  have pv: "pool_valid t" using assms(1) by (simp add: tree_inv_def)
  from dw_outer_fold[OF pv order_refl, of sink]
  show "\<exists>out. dump_dot_whole t sink = Inr (sink @ out) \<and>
            length (filter is_edge out) = (\<Sum>i<nat (count t). card (present_slots t (int i)))"
    unfolding dump_dot_whole_fold .
  have "nat (count t - root_idx) \<le> fuel" using assms(2,3) unfolding in_pool_def by linarith
  from dp_correct[OF assms(1,2) this, of sink]
  show "\<exists>out. dump_dot_prefix fuel t root_idx sink = Some (Inr (sink @ out)) \<and>
            length (filter is_edge out) = (\<Sum>m\<in>reach t root_idx. card (present_slots t m))"
    unfolding slot_total_def .
qed

lemma cat_car_trie_inv: "tree_inv cat_car_trie \<and> in_pool cat_car_trie 0"
proof -
  have ti0: "tree_inv root_trie" and in0: "in_pool root_trie 0"
    using root_trie_props by simp_all
  note sp = insert_text_spec[OF ti0 in0 conjunct1[OF cat_trie_insert]]
  have ti: "tree_inv cat_trie" using sp by blast
  have e: "ext root_trie cat_trie" using sp by blast
  have pv0: "pool_valid root_trie" using ti0 by (simp add: tree_inv_def)
  have pv: "pool_valid cat_trie" using ti by (simp add: tree_inv_def)
  have r: "in_pool cat_trie 0" by (rule ext_in_pool[OF e pv0 pv in0])
  have "paths_in cat_trie 0 UNIV" unfolding paths_in_def by auto
  note ps = populate_spec[OF ti r cat_car_trie_populate this]
  from ps[THEN conjunct1] ps[THEN conjunct2, THEN conjunct1] show ?thesis by simp
qed

lemma root_trie_slots: "present_slots root_trie 0 = {}"
proof -
  from alloc_node_cases[OF root_alloc]
  have "pool root_trie 0 = \<lparr>children = replicate CHILDREN_COUNT INVALID_OFFSET, terminal = False\<rparr>"
    by (auto simp: INVALID_OFFSET_def)
  then show ?thesis by (simp add: present_slots_def)
qed

lemma ab_trie_nth:
  "k < CHILDREN_COUNT \<Longrightarrow> children (pool ab_trie i) ! k =
     (if i = 0 \<and> k = 65 then 1 else if i = 0 \<and> k = 66 then 2 else INVALID_OFFSET)"
  by (simp add: ab_trie_def bare_def CHILDREN_COUNT_def nth_list_update)

lemma ab_trie_len: "length (children (pool ab_trie i)) = CHILDREN_COUNT"
  by (simp add: ab_trie_def bare_def)

lemma ab_trie_fields: "count ab_trie = 3" "pool_cells ab_trie = 2048" "capacity ab_trie = 2048"
  by (simp_all add: ab_trie_def)

lemma ab_trie_valid: "pool_valid ab_trie"
  unfolding pool_valid_def ab_trie_fields
  by (auto simp: ab_trie_nth ab_trie_len INVALID_OFFSET_def INT32_MAX_def)

lemma ab_trie_inv: "tree_inv ab_trie"
  unfolding tree_inv_def ab_trie_fields
  by (intro conjI allI impI ab_trie_valid)
     (auto simp: ab_trie_nth INVALID_OFFSET_def split: if_splits)

lemma ab_trie_slots:
  "present_slots ab_trie 0 = {65, 66}" "i \<noteq> 0 \<Longrightarrow> present_slots ab_trie i = {}"
  unfolding present_slots_def
  by (auto simp: ab_trie_nth INVALID_OFFSET_def CHILDREN_COUNT_def split: if_splits)

lemma ab_trie_in_pool: "in_pool ab_trie 0" "in_pool ab_trie 1" "in_pool ab_trie 2"
  by (simp_all add: in_pool_def ab_trie_fields)

lemma ab_trie_reach: "reach ab_trie 0 = {0, 1, 2}"
proof -
  have c: "children (pool ab_trie 0) ! 65 = 1" "children (pool ab_trie 0) ! 66 = 2"
    by (simp_all add: ab_trie_nth CHILDREN_COUNT_def)
  have "reach ab_trie 1 = {1}" "reach ab_trie 2 = {2}"
    using reach_unfold[OF ab_trie_in_pool(2)] reach_unfold[OF ab_trie_in_pool(3)]
    by (simp_all add: ab_trie_slots)
  then show ?thesis
    using reach_unfold[OF ab_trie_in_pool(1)] by (simp add: ab_trie_slots c insert_commute)
qed

lemma ab_trie_counts:
  "(\<Sum>i<nat (count ab_trie). card (present_slots ab_trie (int i))) = 2"
  "(\<Sum>m\<in>reach ab_trie 0. card (present_slots ab_trie m)) = 2"
  by (simp_all add: ab_trie_fields ab_trie_reach ab_trie_slots numeral_3_eq_3)


lemma ab_trie_whole:
  "dump_dot_whole ab_trie [] =
     Inr [Node_decl 1 (CHR ''a'') True, Edge_stmt 0 1 (CHR ''a''),
          Node_decl 2 (CHR ''b'') True, Edge_stmt 0 2 (CHR ''b'')]"
  by code_simp

lemma ab_trie_prefix:
  "dump_dot_prefix 3 ab_trie 0 [] =
     Some (Inr [Node_decl 1 (CHR ''a'') True, Edge_stmt 0 1 (CHR ''a''),
          Node_decl 2 (CHR ''b'') True, Edge_stmt 0 2 (CHR ''b'')])"
  by code_simp


theorem dot_edges_complete_witness:
  "tree_inv ab_trie \<and> in_pool ab_trie 0 \<and> nat (count ab_trie) \<le> 3 \<and>
   dump_dot_whole ab_trie [] =
     Inr [Node_decl 1 (CHR ''a'') True, Edge_stmt 0 1 (CHR ''a''),
          Node_decl 2 (CHR ''b'') True, Edge_stmt 0 2 (CHR ''b'')] \<and>
   dump_dot_prefix 3 ab_trie 0 [] =
     Some (Inr [Node_decl 1 (CHR ''a'') True, Edge_stmt 0 1 (CHR ''a''),
          Node_decl 2 (CHR ''b'') True, Edge_stmt 0 2 (CHR ''b'')]) \<and>
   (\<Sum>i<nat (count ab_trie). card (present_slots ab_trie (int i))) = 2 \<and>
   (\<Sum>m\<in>reach ab_trie 0. card (present_slots ab_trie m)) = 2 \<and>
   tree_inv root_trie \<and> in_pool root_trie 0 \<and>
   (\<exists>out. dump_dot_whole root_trie [] = Inr out \<and> length (filter is_edge out) = 0)"
proof -
  have f: "nat (count ab_trie) \<le> 3" by (simp add: ab_trie_fields)
  from dot_edges_complete[OF ab_trie_inv ab_trie_in_pool(1) f, of "[]"]
  have s: "(\<Sum>i<nat (count ab_trie). card (present_slots ab_trie (int i))) = 2"
    "(\<Sum>m\<in>reach ab_trie 0. card (present_slots ab_trie m)) = 2"
    unfolding ab_trie_whole ab_trie_prefix by simp_all
  have ti0: "tree_inv root_trie" and in0: "in_pool root_trie 0" and c0: "count root_trie = 1"
    using root_trie_props by simp_all
  have f0: "nat (count root_trie) \<le> 1" using c0 by simp
  have "(\<Sum>i<nat (count root_trie). card (present_slots root_trie (int i))) = 0"
    using c0 root_trie_slots by simp
  with dot_edges_complete[OF ti0 in0 f0, of "[]"]
  have a: "\<exists>out. dump_dot_whole root_trie [] = Inr out \<and> length (filter is_edge out) = 0"
    by simp
  from ab_trie_inv ab_trie_in_pool(1) f ab_trie_whole ab_trie_prefix s ti0 in0 a
  show ?thesis by blast
qed

end
